theory Spec2Isabelle
  imports Main
begin

section \<open>Safepoint placement: a shallow embedding of SafepointPlacementPass.cpp\<close>

text \<open>
  The pass is modelled as it runs in a build with assertions enabled: a failing
  \<^verbatim>\<open>assert\<close> and a reached \<^verbatim>\<open>llvm_unreachable\<close> are results of the
  model, so every function that can hit one returns \<open>error + 'a\<close>.  A pointer that may
  be \<^verbatim>\<open>nullptr\<close> is an \<open>option\<close>.
\<close>

datatype error = AssertionFailed | Unreachable

subsection \<open>unique_unsorted\<close>

text \<open>
  \<^verbatim>\<open>unique_unsorted\<close> swaps the vector into \<^verbatim>\<open>tmp\<close> and pushes back every
  element whose insertion into the \<^verbatim>\<open>std::set seen\<close> succeeds.  The loop is a
  recursion over \<^verbatim>\<open>tmp\<close> carrying \<^verbatim>\<open>seen\<close> and the vector built so far.
\<close>

fun unique_unsorted_loop :: "'a list \<Rightarrow> 'a set \<Rightarrow> 'a list \<Rightarrow> 'a list" where
  "unique_unsorted_loop [] seen vec = vec"
| "unique_unsorted_loop (V # tmp) seen vec =
     (if V \<notin> seen then unique_unsorted_loop tmp (insert V seen) (vec @ [V])
      else unique_unsorted_loop tmp seen vec)"

definition unique_unsorted :: "'a list \<Rightarrow> 'a list" where
  "unique_unsorted vec = unique_unsorted_loop vec {} []"

text \<open>The positions of a vector that hold the first occurrence of their element.\<close>

definition first_occurrences :: "'a list \<Rightarrow> 'a list" where
  "first_occurrences xs =
     map (\<lambda>i. xs ! i) (filter (\<lambda>i. xs ! i \<notin> set (take i xs)) [0..<length xs])"

subsection \<open>The base-pointer lattice: PhiState and MeetPhiStates\<close>

datatype Status = Unknown | Base | Conflict

text \<open>
  \<^verbatim>\<open>class PhiState\<close> has the two private fields \<^verbatim>\<open>status\<close> and \<^verbatim>\<open>base\<close>;
  \<^verbatim>\<open>base\<close> is a \<^verbatim>\<open>Value*\<close>, documented as non-null only for the status Base.
\<close>

record 'v PhiState =
  status :: Status
  base :: "'v option"

text \<open>The four constructors; two of them assert \<^verbatim>\<open>status != Base || b\<close>.\<close>

definition PhiState_of_status :: "Status \<Rightarrow> 'v option \<Rightarrow> error + 'v PhiState" where
  "PhiState_of_status s b =
     (if s \<noteq> Base \<or> b \<noteq> None then Inr \<lparr>status = s, base = b\<rparr> else Inl AssertionFailed)"

definition PhiState_of_base :: "'v option \<Rightarrow> 'v PhiState" where
  "PhiState_of_base b = \<lparr>status = Base, base = b\<rparr>"

definition PhiState_default :: "'v PhiState" where
  "PhiState_default = \<lparr>status = Unknown, base = None\<rparr>"

definition PhiState_copy :: "'v PhiState \<Rightarrow> error + 'v PhiState" where
  "PhiState_copy other =
     (if status other \<noteq> Base \<or> base other \<noteq> None
      then Inr \<lparr>status = status other, base = base other\<rparr>
      else Inl AssertionFailed)"

definition isBase :: "'v PhiState \<Rightarrow> bool" where
  "isBase s = (status s = Base)"

definition isUnknown :: "'v PhiState \<Rightarrow> bool" where
  "isUnknown s = (status s = Unknown)"

definition isConflict :: "'v PhiState \<Rightarrow> bool" where
  "isConflict s = (status s = Conflict)"

text \<open>
  \<^verbatim>\<open>MeetPhiStates::pureMeet\<close>.  The result is returned by value, so returning one of
  the arguments runs the copy constructor, and \<^verbatim>\<open>PhiState(PhiState::Conflict)\<close> runs
  the constructor with the default \<^verbatim>\<open>nullptr\<close> base.  \<^verbatim>\<open>operator==\<close> compares both
  fields, which is equality of records.
\<close>

definition pureMeet :: "'v PhiState \<Rightarrow> 'v PhiState \<Rightarrow> error + 'v PhiState" where
  "pureMeet stateA stateB =
     (case status stateA of
        Unknown \<Rightarrow> PhiState_copy stateB
      | Base \<Rightarrow>
          if base stateA = None then Inl AssertionFailed
          else if isUnknown stateB then PhiState_copy stateA
          else if isBase stateB then
            (if base stateA = base stateB then
               (if stateA = stateB then PhiState_copy stateA else Inl AssertionFailed)
             else PhiState_of_status Conflict None)
          else
            (if isConflict stateB then PhiState_of_status Conflict None
             else Inl AssertionFailed)
      | Conflict \<Rightarrow> PhiState_copy stateA)"

text \<open>
  The states of the three-valued lattice are the values \<^verbatim>\<open>PhiState()\<close>,
  \<^verbatim>\<open>PhiState(b)\<close> for a non-null \<^verbatim>\<open>b\<close> and \<^verbatim>\<open>PhiState(PhiState::Conflict)\<close>: those
  whose \<^verbatim>\<open>base\<close> is non-null exactly when the status is Base, as the comment on the
  field and the constructors' assertions say.
\<close>

definition isLatticeState :: "'v PhiState \<Rightarrow> bool" where
  "isLatticeState s = ((status s = Base) = (base s \<noteq> None))"

text \<open>
  \<^verbatim>\<open>MeetPhiStates\<close> holds a reference to the map \<^verbatim>\<open>phiStates\<close> and the running
  \<^verbatim>\<open>currentResult\<close>.  \<^verbatim>\<open>isKnownBaseResult\<close> depends on the kind and the metadata of
  the value and is a parameter here.
\<close>

definition lookupFromMap :: "('v \<rightharpoonup> 'v PhiState) \<Rightarrow> 'v \<Rightarrow> error + 'v PhiState" where
  "lookupFromMap phiStates V =
     (case phiStates V of None \<Rightarrow> Inl AssertionFailed | Some s \<Rightarrow> PhiState_copy s)"

definition getStateForBDV ::
  "('v \<Rightarrow> bool) \<Rightarrow> ('v \<rightharpoonup> 'v PhiState) \<Rightarrow> 'v \<Rightarrow> error + 'v PhiState" where
  "getStateForBDV isKnownBaseResult phiStates baseValue =
     (if isKnownBaseResult baseValue then Inr (PhiState_of_base (Some baseValue))
      else lookupFromMap phiStates baseValue)"

definition meetWith ::
  "('v \<Rightarrow> bool) \<Rightarrow> ('v \<rightharpoonup> 'v PhiState) \<Rightarrow> 'v PhiState \<Rightarrow> 'v \<Rightarrow> error + 'v PhiState" where
  "meetWith isKnownBaseResult phiStates currentResult V =
     (case getStateForBDV isKnownBaseResult phiStates V of
        Inl e \<Rightarrow> Inl e
      | Inr otherState \<Rightarrow>
          if pureMeet otherState currentResult = pureMeet currentResult otherState
          then pureMeet otherState currentResult
          else Inl AssertionFailed)"

subsection \<open>The IR the pass works on\<close>

text \<open>
  Values, instructions, basic blocks and functions, with the parts of LLVM's classes that
  the pass reads.  An instruction and a block are named by an identifier, which stands for
  the address that the source compares (\<^verbatim>\<open>V != inst\<close>).
\<close>

type_synonym ident = nat

datatype Type = VoidTy | IntegerTy | FloatingPointTy | PointerTy nat | OtherTy

text \<open>
  Modelled from the spec: \<^verbatim>\<open>isGCPointerType\<close> is declared in a header that is not
  among the sources; a GC pointer is a pointer in address space 1.
\<close>

definition isGCPointerType :: "Type \<Rightarrow> bool" where
  "isGCPointerType T = (case T of PointerTy addrspace \<Rightarrow> addrspace = 1 | _ \<Rightarrow> False)"

definition isPointerTy :: "Type \<Rightarrow> bool" where
  "isPointerTy T = (case T of PointerTy addrspace \<Rightarrow> True | _ \<Rightarrow> False)"

datatype Value =
    Argument ident Type
  | GlobalVariable ident Type
  | UndefValue Type
  | ConstantPointerNull Type
  | ConstantInt int
  | FunctionRef string Type
  | InstructionValue ident Type

fun getType :: "Value \<Rightarrow> Type" where
  "getType (Argument n T) = T"
| "getType (GlobalVariable n T) = T"
| "getType (UndefValue T) = T"
| "getType (ConstantPointerNull T) = T"
| "getType (ConstantInt n) = IntegerTy"
| "getType (FunctionRef name T) = T"
| "getType (InstructionValue n T) = T"

text \<open>\<^verbatim>\<open>isNull\<close>: a constant that is the null value of its type.\<close>

fun isNull :: "Value \<Rightarrow> bool" where
  "isNull (ConstantPointerNull T) = True"
| "isNull (ConstantInt n) = (n = 0)"
| "isNull V = False"

fun isUndefValue :: "Value \<Rightarrow> bool" where
  "isUndefValue (UndefValue T) = True"
| "isUndefValue V = False"

datatype Intrinsic =
    not_intrinsic | memset | memmove | memcpy | statepoint | gc_relocate
  | gc_result_int | gc_result_float | gc_result_ptr | gcroot | other_intrinsic

text \<open>A called function: its name, its intrinsic ID and its string attributes.\<close>

record FunctionDecl =
  decl_name :: string
  decl_intrinsic :: Intrinsic
  decl_attrs :: "(string \<times> string) list"

datatype Callee = InlineAsm | CalledFunction FunctionDecl | IndirectCallee Value

datatype Opcode =
    Call Callee | Invoke Callee | Alloca | Load | Store | PHI "ident list" | Select
  | Terminator | OtherInst

text \<open>
  \<^verbatim>\<open>operands\<close> are the operands that are values (for a call, its arguments; for a
  phi, its incoming values, the incoming blocks being the list of the opcode);
  \<^verbatim>\<open>successors\<close> are the block operands of a terminator.
\<close>

record Instruction =
  inst_id :: ident
  inst_type :: Type
  opcode :: Opcode
  operands :: "Value list"
  successors :: "ident list"

definition valueOf :: "Instruction \<Rightarrow> Value" where
  "valueOf I = InstructionValue (inst_id I) (inst_type I)"

definition isCallInst :: "Instruction \<Rightarrow> bool" where
  "isCallInst I = (case opcode I of Call c \<Rightarrow> True | _ \<Rightarrow> False)"

definition isInvokeInst :: "Instruction \<Rightarrow> bool" where
  "isInvokeInst I = (case opcode I of Invoke c \<Rightarrow> True | _ \<Rightarrow> False)"

definition isAllocaInst :: "Instruction \<Rightarrow> bool" where
  "isAllocaInst I = (opcode I = Alloca)"

definition isPHINode :: "Instruction \<Rightarrow> bool" where
  "isPHINode I = (case opcode I of PHI bs \<Rightarrow> True | _ \<Rightarrow> False)"

definition isTerminator :: "Instruction \<Rightarrow> bool" where
  "isTerminator I = (case opcode I of Terminator \<Rightarrow> True | Invoke c \<Rightarrow> True | _ \<Rightarrow> False)"

record BasicBlock =
  bb_id :: ident
  insts :: "Instruction list"

text \<open>The first block of \<^verbatim>\<open>blocks\<close> is the entry block; a declaration has none.\<close>

record Function =
  fn_name :: string
  fn_attrs :: "(string \<times> string) list"
  fn_args :: "Value list"
  blocks :: "BasicBlock list"

text \<open>\<^verbatim>\<open>inst_begin(F)\<close> to \<^verbatim>\<open>inst_end(F)\<close>: the instructions of all blocks, in order.\<close>

definition instructions :: "Function \<Rightarrow> Instruction list" where
  "instructions F = concat (map insts (blocks F))"

text \<open>
  \<^verbatim>\<open>getFnAttribute(kind).getValueAsString()\<close>: the empty string when the attribute
  is absent.
\<close>

definition getFnAttribute :: "(string \<times> string) list \<Rightarrow> string \<Rightarrow> string" where
  "getFnAttribute attrs kind = (case map_of attrs kind of None \<Rightarrow> [] | Some v \<Rightarrow> v)"

text \<open>The command-line options of the pass.\<close>

record Options =
  AllBackedges :: bool
  BaseRewriteOnly :: bool
  AllFunctions :: bool
  UseVMState :: bool
  DataflowLiveness :: bool
  NoEntry :: bool
  NoCall :: bool
  NoBackedge :: bool

definition VMStateRequired :: "Options \<Rightarrow> bool" where
  "VMStateRequired opts = (\<not> AllFunctions opts \<and> UseVMState opts)"

text \<open>
  The three selectors start with the same test: \<^verbatim>\<open>shouldRun\<close> is \<^verbatim>\<open>AllFunctions\<close>
  or the function's opt-in attribute being \<^verbatim>\<open>"true"\<close>; for the function
  \<^verbatim>\<open>gc.safepoint_poll\<close> the source asserts \<^verbatim>\<open>AllFunctions\<close> and clears
  \<^verbatim>\<open>shouldRun\<close>.
\<close>

definition shouldRun :: "Options \<Rightarrow> Function \<Rightarrow> string \<Rightarrow> error + bool" where
  "shouldRun opts F attr =
     (let run = (AllFunctions opts \<or> getFnAttribute (fn_attrs F) attr = ''true'') in
      if run \<and> fn_name F = ''gc.safepoint_poll''
      then (if AllFunctions opts then Inr False else Inl AssertionFailed)
      else Inr run)"

subsection \<open>Call sites that need a statepoint\<close>

text \<open>A \<^verbatim>\<open>CallSite\<close> wraps a call or an invoke instruction.\<close>

type_synonym CallSite = Instruction

definition getCallee :: "CallSite \<Rightarrow> Callee option" where
  "getCallee CS = (case opcode CS of Call c \<Rightarrow> Some c | Invoke c \<Rightarrow> Some c | _ \<Rightarrow> None)"

definition getCalledFunction :: "CallSite \<Rightarrow> FunctionDecl option" where
  "getCalledFunction CS =
     (case getCallee CS of Some (CalledFunction f) \<Rightarrow> Some f | _ \<Rightarrow> None)"

text \<open>
  \<^verbatim>\<open>dyn_cast<IntrinsicInst>\<close> succeeds on a \<^verbatim>\<open>CallInst\<close> whose called function has
  an intrinsic ID; the result here is that ID.
\<close>

definition asIntrinsicInst :: "Instruction \<Rightarrow> Intrinsic option" where
  "asIntrinsicInst I =
     (case opcode I of
        Call (CalledFunction f) \<Rightarrow>
          (if decl_intrinsic f \<noteq> not_intrinsic then Some (decl_intrinsic f) else None)
      | _ \<Rightarrow> None)"

definition isInlineAsm :: "Instruction \<Rightarrow> bool" where
  "isInlineAsm I = (opcode I = Call InlineAsm)"

text \<open>
  Modelled from the spec: \<^verbatim>\<open>isStatepoint\<close>, \<^verbatim>\<open>isGCRelocate\<close> and \<^verbatim>\<open>isGCResult\<close>
  come from \<^verbatim>\<open>llvm/IR/Statepoint.h\<close>, which is not among the sources; they recognise
  the already-inserted statepoint, relocate and result intrinsics by the called function.
\<close>

definition isStatepoint :: "CallSite \<Rightarrow> bool" where
  "isStatepoint CS =
     (case getCalledFunction CS of Some f \<Rightarrow> decl_intrinsic f = statepoint | None \<Rightarrow> False)"

definition isGCRelocate :: "CallSite \<Rightarrow> bool" where
  "isGCRelocate CS =
     (case getCalledFunction CS of Some f \<Rightarrow> decl_intrinsic f = gc_relocate | None \<Rightarrow> False)"

definition isGCResult :: "CallSite \<Rightarrow> bool" where
  "isGCResult CS =
     (case getCalledFunction CS of
        Some f \<Rightarrow> decl_intrinsic f = gc_result_int \<or> decl_intrinsic f = gc_result_float \<or>
                  decl_intrinsic f = gc_result_ptr
      | None \<Rightarrow> False)"

definition isGCLeafFunction :: "CallSite \<Rightarrow> bool" where
  "isGCLeafFunction CS =
     (if (case asIntrinsicInst CS of
            Some memset \<Rightarrow> False
          | Some memmove \<Rightarrow> False
          | Some memcpy \<Rightarrow> False
          | Some other \<Rightarrow> True
          | None \<Rightarrow> False)
      then True
      else (case getCalledFunction CS of
              Some f \<Rightarrow> getFnAttribute (decl_attrs f) ''gc-leaf-function'' = ''true''
            | None \<Rightarrow> False))"

definition needsStatepoint :: "CallSite \<Rightarrow> bool" where
  "needsStatepoint CS =
     (if isGCLeafFunction CS then False
      else if isCallInst CS \<and> isInlineAsm CS then False
      else if isStatepoint CS \<or> isGCRelocate CS \<or> isGCResult CS then False
      else True)"

definition findCallSafepoints :: "Options \<Rightarrow> Function \<Rightarrow> error + CallSite list" where
  "findCallSafepoints opts F =
     (case shouldRun opts F ''gc-add-call-safepoints'' of
        Inl e \<Rightarrow> Inl e
      | Inr False \<Rightarrow> Inr []
      | Inr True \<Rightarrow>
          Inr (filter (\<lambda>inst. (isCallInst inst \<or> isInvokeInst inst) \<and> needsStatepoint inst)
                 (instructions F)))"

text \<open>
  The selection rule in words, for comparison with the source: a call is selected when
  it is not inline assembly, its callee is not annotated \<^verbatim>\<open>gc-leaf-function\<close>, and
  the callee is either no intrinsic or one of memset, memmove and memcpy; an invoke is
  selected when its callee is not annotated \<^verbatim>\<open>gc-leaf-function\<close> and is none of the
  statepoint, relocate and result intrinsics.
\<close>

definition annotatedLeaf :: "Callee \<Rightarrow> bool" where
  "annotatedLeaf c =
     (case c of
        CalledFunction f \<Rightarrow> getFnAttribute (decl_attrs f) ''gc-leaf-function'' = ''true''
      | _ \<Rightarrow> False)"

definition calleeIntrinsic :: "Callee \<Rightarrow> Intrinsic" where
  "calleeIntrinsic c = (case c of CalledFunction f \<Rightarrow> decl_intrinsic f | _ \<Rightarrow> not_intrinsic)"

definition selectedAsParsePoint :: "Instruction \<Rightarrow> bool" where
  "selectedAsParsePoint I =
     (case opcode I of
        Call c \<Rightarrow>
          c \<noteq> InlineAsm \<and> \<not> annotatedLeaf c \<and>
          calleeIntrinsic c \<in> {not_intrinsic, memset, memmove, memcpy}
      | Invoke c \<Rightarrow>
          \<not> annotatedLeaf c \<and>
          calleeIntrinsic c \<notin> {statepoint, gc_relocate, gc_result_int, gc_result_float, gc_result_ptr}
      | _ \<Rightarrow> False)"


subsection \<open>Example inputs for call-site selection\<close>

definition ex_decl :: "string \<Rightarrow> Intrinsic \<Rightarrow> (string \<times> string) list \<Rightarrow> FunctionDecl" where
  "ex_decl n i a = \<lparr>decl_name = n, decl_intrinsic = i, decl_attrs = a\<rparr>"

definition ex_inst :: "ident \<Rightarrow> Type \<Rightarrow> Opcode \<Rightarrow> Value list \<Rightarrow> ident list \<Rightarrow> Instruction" where
  "ex_inst n T opc ops succs =
     \<lparr>inst_id = n, inst_type = T, opcode = opc, operands = ops, successors = succs\<rparr>"

definition ex_options :: Options where
  "ex_options = \<lparr>AllBackedges = False, BaseRewriteOnly = False, AllFunctions = False,
     UseVMState = True, DataflowLiveness = False, NoEntry = False, NoCall = False,
     NoBackedge = False\<rparr>"

definition ex_invoke :: Instruction where
  "ex_invoke = ex_inst 1 VoidTy (Invoke (CalledFunction (ex_decl ''foo'' not_intrinsic []))) [] [1, 2]"

definition ex_calls :: "Instruction list" where
  "ex_calls =
     [ex_inst 10 VoidTy (Call (CalledFunction (ex_decl ''foo'' not_intrinsic []))) [] [],
      ex_inst 11 VoidTy (Call InlineAsm) [] [],
      ex_inst 12 VoidTy (Call (CalledFunction (ex_decl ''llvm.memcpy'' memcpy []))) [] [],
      ex_inst 13 VoidTy (Call (CalledFunction (ex_decl ''llvm.dbg.value'' other_intrinsic []))) [] [],
      ex_inst 14 VoidTy (Call (CalledFunction (ex_decl ''leaf'' not_intrinsic [(''gc-leaf-function'', ''true'')]))) [] [],
      ex_inst 15 IntegerTy (Call (CalledFunction (ex_decl ''llvm.statepoint'' statepoint []))) [] [],
      ex_inst 16 (PointerTy 1) (Call (CalledFunction (ex_decl ''llvm.gc.relocate'' gc_relocate []))) [] [],
      ex_inst 17 (PointerTy 1) (Call (IndirectCallee (Argument 0 (PointerTy 0)))) [] [],
      ex_inst 18 VoidTy Terminator [] []]"

definition ex_callFunction :: "Instruction list \<Rightarrow> Function" where
  "ex_callFunction is =
     \<lparr>fn_name = ''f'', fn_attrs = [(''gc-add-call-safepoints'', ''true'')], fn_args = [],
      blocks = [\<lparr>bb_id = 0, insts = is\<rparr>]\<rparr>"

subsection \<open>The control-flow graph\<close>

text \<open>
  \<^verbatim>\<open>getTerminator\<close> is the last instruction of the block when that is a terminator,
  and null otherwise; the successors of a block are the block operands of its
  terminator, and its predecessors are the blocks whose terminators name it, once for
  every edge.
\<close>

definition getTerminator :: "BasicBlock \<Rightarrow> Instruction option" where
  "getTerminator BB =
     (if insts BB = [] then None
      else if isTerminator (last (insts BB)) then Some (last (insts BB)) else None)"

definition succ_blocks :: "BasicBlock \<Rightarrow> ident list" where
  "succ_blocks BB = (case getTerminator BB of None \<Rightarrow> [] | Some t \<Rightarrow> successors t)"

definition getBlock :: "Function \<Rightarrow> ident \<Rightarrow> BasicBlock option" where
  "getBlock F b = find (\<lambda>BB. bb_id BB = b) (blocks F)"

definition getParent :: "Function \<Rightarrow> Instruction \<Rightarrow> BasicBlock option" where
  "getParent F inst = find (\<lambda>BB. inst \<in> set (insts BB)) (blocks F)"

definition predecessors :: "Function \<Rightarrow> ident \<Rightarrow> BasicBlock list" where
  "predecessors F b =
     concat (map (\<lambda>P. map (\<lambda>s. P) (filter (\<lambda>s. s = b) (succ_blocks P))) (blocks F))"

text \<open>
  Modelled from the spec: \<^verbatim>\<open>getUniqueSuccessor\<close> and \<^verbatim>\<open>getUniquePredecessor\<close> are
  methods of \<^verbatim>\<open>BasicBlock\<close>, which is not among the sources.  A block has a unique
  successor (predecessor) when it has at least one and all of them are the same block.
\<close>

definition uniqueElement :: "ident list \<Rightarrow> ident option" where
  "uniqueElement xs =
     (case xs of [] \<Rightarrow> None | x # rest \<Rightarrow> if list_all (\<lambda>y. y = x) rest then Some x else None)"

definition getUniqueSuccessor :: "Function \<Rightarrow> ident \<Rightarrow> ident option" where
  "getUniqueSuccessor F b =
     (case getBlock F b of None \<Rightarrow> None | Some BB \<Rightarrow> uniqueElement (succ_blocks BB))"

definition getUniquePredecessor :: "Function \<Rightarrow> ident \<Rightarrow> ident option" where
  "getUniquePredecessor F b = uniqueElement (map bb_id (predecessors F b))"

subsection \<open>Backedge polls\<close>

text \<open>
  A natural loop as \<^verbatim>\<open>LoopInfo\<close> gives it: its header, its blocks and its latch (null
  when the loop has several backedges).  \<^verbatim>\<open>ScalarEvolution::getSmallConstantTripCount\<close>
  is a parameter.
\<close>

record Loop =
  getHeader :: ident
  loop_blocks :: "ident list"
  getLoopLatch :: "ident option"

definition contains :: "Loop \<Rightarrow> ident \<Rightarrow> bool" where
  "contains L b = (b \<in> set (loop_blocks L))"

type_synonym ScalarEvolution = "Loop \<Rightarrow> ident \<Rightarrow> nat"

definition mustBeFiniteCountedLoop :: "Loop \<Rightarrow> ScalarEvolution \<Rightarrow> bool" where
  "mustBeFiniteCountedLoop L SE =
     (let TripCount = (case getLoopLatch L of
                         Some LatchBlock \<Rightarrow> SE L LatchBlock
                       | None \<Rightarrow> 0)
      in TripCount > 0)"

text \<open>
  The loop of \<^verbatim>\<open>runOnLoop\<close> over the predecessors of the header, carrying
  \<^verbatim>\<open>modified\<close> and \<^verbatim>\<open>PollLocations\<close>.
\<close>

fun runOnLoop_preds ::
  "Options \<Rightarrow> ScalarEvolution \<Rightarrow> Loop \<Rightarrow> BasicBlock list \<Rightarrow>
   bool \<times> Instruction option list \<Rightarrow> bool \<times> Instruction option list" where
  "runOnLoop_preds opts SE L [] (modified, PollLocations) = (modified, PollLocations)"
| "runOnLoop_preds opts SE L (pred # preds) (modified, PollLocations) =
     (if \<not> contains L (bb_id pred) then runOnLoop_preds opts SE L preds (modified, PollLocations)
      else if \<not> AllBackedges opts \<and> mustBeFiniteCountedLoop L SE
      then runOnLoop_preds opts SE L preds (modified, PollLocations)
      else runOnLoop_preds opts SE L preds (True, PollLocations @ [getTerminator pred]))"

definition runOnLoop ::
  "Options \<Rightarrow> ScalarEvolution \<Rightarrow> Function \<Rightarrow> Loop \<Rightarrow> Instruction option list \<Rightarrow>
   error + (bool \<times> Instruction option list)" where
  "runOnLoop opts SE F L PollLocations =
     (case shouldRun opts F ''gc-add-backedge-safepoints'' of
        Inl e \<Rightarrow> Inl e
      | Inr False \<Rightarrow> Inr (False, PollLocations)
      | Inr True \<Rightarrow>
          Inr (runOnLoop_preds opts SE L (predecessors F (getHeader L)) (False, PollLocations)))"

subsection \<open>The entry poll\<close>

text \<open>
  The \<^verbatim>\<open>while (true)\<close> loop of \<^verbatim>\<open>findLocationForEntrySafepoint\<close>.  It has no bound
  of its own, so it is a partial function: \<open>None\<close> is the loop that never leaves.
\<close>

partial_function (option) entryWalk :: "Function \<Rightarrow> ident \<Rightarrow> ident option" where
  "entryWalk F currentBB =
     (case getUniqueSuccessor F currentBB of
        None \<Rightarrow> Some currentBB
      | Some nextBB \<Rightarrow>
          (case getUniquePredecessor F nextBB of
             None \<Rightarrow> Some currentBB
           | Some p \<Rightarrow> entryWalk F nextBB))"

definition terminatorOf :: "Function \<Rightarrow> ident \<Rightarrow> Instruction option" where
  "terminatorOf F b = (case getBlock F b of None \<Rightarrow> None | Some BB \<Rightarrow> getTerminator BB)"

definition findLocationForEntrySafepoint ::
  "Options \<Rightarrow> Function \<Rightarrow> (error + Instruction option) option" where
  "findLocationForEntrySafepoint opts F =
     (case shouldRun opts F ''gc-add-entry-safepoints'' of
        Inl e \<Rightarrow> Some (Inl e)
      | Inr False \<Rightarrow> Some (Inr None)
      | Inr True \<Rightarrow>
          (case blocks F of
             [] \<Rightarrow> Some (Inl AssertionFailed)
           | entry # rest \<Rightarrow>
               (case entryWalk F (bb_id entry) of
                  None \<Rightarrow> None
                | Some currentBB \<Rightarrow> Some (Inr (terminatorOf F currentBB)))))"

text \<open>
  One step of the chain in words: the block has a unique successor, and that successor
  has a unique predecessor.
\<close>

definition chainStep :: "Function \<Rightarrow> ident \<Rightarrow> ident \<Rightarrow> bool" where
  "chainStep F x y = (getUniqueSuccessor F x = Some y \<and> getUniquePredecessor F y \<noteq> None)"


subsection \<open>Example inputs for the poll selectors\<close>

definition ex_br :: "ident \<Rightarrow> ident list \<Rightarrow> Instruction" where
  "ex_br n succs = ex_inst n VoidTy Terminator [] succs"

definition ex_loopFunction :: Function where
  "ex_loopFunction =
     \<lparr>fn_name = ''g'',
      fn_attrs = [(''gc-add-entry-safepoints'', ''true''), (''gc-add-backedge-safepoints'', ''true'')],
      fn_args = [],
      blocks = [\<lparr>bb_id = 0, insts = [ex_br 100 [1]]\<rparr>,
                \<lparr>bb_id = 1, insts = [ex_br 101 [2]]\<rparr>,
                \<lparr>bb_id = 2, insts = [ex_br 102 [3]]\<rparr>,
                \<lparr>bb_id = 3, insts = [ex_br 103 [4]]\<rparr>,
                \<lparr>bb_id = 4, insts = [ex_br 104 [3, 5]]\<rparr>,
                \<lparr>bb_id = 5, insts = [ex_br 105 []]\<rparr>]\<rparr>"

definition ex_loop :: Loop where
  "ex_loop = \<lparr>getHeader = 3, loop_blocks = [3, 4], getLoopLatch = Some 4\<rparr>"

subsection \<open>Uses and operands\<close>

text \<open>
  \<^verbatim>\<open>getOperand(i)\<close> ranges over the arguments of an instruction and, for a call or an
  invoke, over the called value.  A called function and an inline-assembly value are
  never of GC-pointer type, so only an indirect callee is listed.
\<close>

definition getOperands :: "Instruction \<Rightarrow> Value list" where
  "getOperands I =
     operands I @
     (case opcode I of
        Call (IndirectCallee v) \<Rightarrow> [v]
      | Invoke (IndirectCallee v) \<Rightarrow> [v]
      | _ \<Rightarrow> [])"

definition users :: "Function \<Rightarrow> Value \<Rightarrow> Instruction list" where
  "users F V = filter (\<lambda>I. V \<in> set (getOperands I)) (instructions F)"

definition use_empty :: "Function \<Rightarrow> Value \<Rightarrow> bool" where
  "use_empty F V = (users F V = [])"

subsection \<open>CreateSafepoint\<close>

text \<open>
  The abstract VM state read through \<^verbatim>\<open>JVMState\<close> (a header outside the sources):
  the bytecode index, the stack elements and locals with their type tags, and the
  monitors.
\<close>

record JVMState =
  bci :: int
  stackElements :: "(int \<times> Value) list"
  locals :: "(int \<times> Value) list"
  monitors :: "Value list"

text \<open>
  An operand of an instruction that \<^verbatim>\<open>CreateSafepoint\<close> emits: a value of the
  function, the called value of the replaced call, the bitcast of that called value to
  the original function type, or the token (the new statepoint itself).
\<close>

datatype Operand = Val Value | CalledValue Callee | BitCastOfCalledValue Callee | SafepointToken

text \<open>
  What \<^verbatim>\<open>CreateSafepoint\<close> emits: the arguments of the statepoint, the position
  \<^verbatim>\<open>live_start\<close> in them, the arguments of the \<^verbatim>\<open>gc_result\<close> when there is one, and
  the arguments of every \<^verbatim>\<open>gc_relocate\<close>, in the order of emission.  Where the
  instructions are inserted is not part of the model.
\<close>

record SafepointCode =
  statepoint_args :: "Operand list"
  live_start :: nat
  gc_result_args :: "Operand list option"
  gc_relocate_args :: "Operand list list"

text \<open>
  \<^verbatim>\<open>find_index\<close>: \<^verbatim>\<open>std::find\<close> gives the first position of the value, and the
  assertion rejects a value that is not in the vector.
\<close>

fun find_first :: "'a list \<Rightarrow> 'a \<Rightarrow> nat option" where
  "find_first [] val = None"
| "find_first (x # xs) val = (if x = val then Some 0 else map_option Suc (find_first xs val))"

definition find_index :: "Value list \<Rightarrow> Value \<Rightarrow> error + nat" where
  "find_index livevec val =
     (case find_first livevec val of None \<Rightarrow> Inl AssertionFailed | Some index \<Rightarrow> Inr index)"

text \<open>
  \<^verbatim>\<open>isJVMState(*CS.arg_begin())\<close>, with \<^verbatim>\<open>isJVMState\<close> a parameter.  With no
  argument the source reads the operand that follows the arguments, the called value; the
  model takes that not to be a VM state.
\<close>

definition isCallSiteHoldingVMState :: "(Value \<Rightarrow> bool) \<Rightarrow> CallSite \<Rightarrow> bool" where
  "isCallSiteHoldingVMState isJVMState CS =
     (case operands CS of [] \<Rightarrow> False | a # as \<Rightarrow> isJVMState a)"

definition i32 :: "int \<Rightarrow> Operand" where
  "i32 n = Val (ConstantInt n)"

text \<open>The loop that emits one \<^verbatim>\<open>gc_relocate\<close> for every live variable.\<close>

fun gc_relocates :: "nat \<Rightarrow> Value list \<Rightarrow> (Value \<times> Value) list \<Rightarrow> error + Operand list list" where
  "gc_relocates start liveVariables [] = Inr []"
| "gc_relocates start liveVariables ((basePtr, liveVariable) # rest) =
     (case find_index liveVariables basePtr of
        Inl e \<Rightarrow> Inl e
      | Inr baseIndex \<Rightarrow>
          (case find_index liveVariables liveVariable of
             Inl e \<Rightarrow> Inl e
           | Inr derivedIndex \<Rightarrow>
               (case gc_relocates start liveVariables rest of
                  Inl e \<Rightarrow> Inl e
                | Inr relocs \<Rightarrow>
                    Inr ([SafepointToken, i32 (int (start + baseIndex)),
                          i32 (int (start + derivedIndex))] # relocs))))"

text \<open>
  The block that an instruction of the safepoint is in: a block of the function, or the
  block \<^verbatim>\<open>invoke_safepoint_normal_dest\<close> that \<^verbatim>\<open>CreateSafepoint\<close> makes for an
  invoke.
\<close>

datatype SafepointBlock = BlockOfFunction ident | InvokeSafepointNormalDest

text \<open>
  The normal destination of an invoke is the first of its successors, the unwind
  destination the second.
\<close>

definition getNormalDest :: "Instruction \<Rightarrow> ident option" where
  "getNormalDest invoke = (case successors invoke of [] \<Rightarrow> None | dest # others \<Rightarrow> Some dest)"

text \<open>
  \<^verbatim>\<open>VerifySafepointBounds\<close>, on the parents of the two bounds.  With both in one
  block there is nothing to check.  Otherwise the terminator of the first block has to
  be an invoke, and its normal destination the block of the second bound.  The block
  made for an invoke ends in a branch.
\<close>

definition VerifySafepointBounds :: "Function \<Rightarrow> SafepointBlock \<times> SafepointBlock \<Rightarrow> error + unit" where
  "VerifySafepointBounds F bounds =
     (if fst bounds = snd bounds then Inr ()
      else
        (case fst bounds of
           InvokeSafepointNormalDest \<Rightarrow> Inl AssertionFailed
         | BlockOfFunction BB \<Rightarrow>
             (case terminatorOf F BB of
                None \<Rightarrow> Inl AssertionFailed
              | Some t \<Rightarrow>
                  if \<not> isInvokeInst t then Inl AssertionFailed
                  else if map_option BlockOfFunction (getNormalDest t) = Some (snd bounds)
                  then Inr () else Inl AssertionFailed)))"

text \<open>
  \<^verbatim>\<open>CreateSafepoint\<close>.  The 32-bit constants are integers here: no operand count of
  the model reaches \<open>2\<^sup>3\<^sup>1\<close>.  The statepoint is put before the replaced call
  site, in its block \<open>BB\<close>, and the replaced instruction is still there when the bounds
  are verified.  The \<^verbatim>\<open>gc_result\<close> and the \<^verbatim>\<open>gc_relocate\<close>s follow a call in
  \<open>BB\<close>; for an invoke they go into the new normal destination.  The last instruction
  of the safepoint is the last \<^verbatim>\<open>gc_relocate\<close>, or else the \<^verbatim>\<open>gc_result\<close>, or else
  the statepoint.
\<close>

definition CreateSafepoint ::
  "(Value \<Rightarrow> bool) \<Rightarrow> Function \<Rightarrow> CallSite \<Rightarrow> JVMState option \<Rightarrow> Value list \<Rightarrow> Value list \<Rightarrow>
   error + SafepointCode" where
  "CreateSafepoint isJVMState F CS jvmStateCall basePtrs liveVariables =
     (if length basePtrs \<noteq> length liveVariables then Inl AssertionFailed
      else case getParent F CS of
        None \<Rightarrow> Inl AssertionFailed
      | Some BB \<Rightarrow>
      case getCallee CS of
        None \<Rightarrow> Inl Unreachable
      | Some Target \<Rightarrow>
          let holding = isCallSiteHoldingVMState isJVMState CS in
          if holding \<and> \<not> isCallInst CS then Inl AssertionFailed
          else
            let arg_size = int (length (operands CS));
                args =
                  [if holding then BitCastOfCalledValue Target else CalledValue Target,
                   i32 (if holding then arg_size - 1 else arg_size),
                   i32 0] @
                  (case jvmStateCall of
                     Some jvmState \<Rightarrow>
                       [i32 0, i32 (bci jvmState), i32 (int (length (stackElements jvmState))),
                        i32 (int (length (locals jvmState))),
                        i32 (int (length (monitors jvmState)))]
                   | None \<Rightarrow> [i32 0, i32 (- 1), i32 0, i32 0, i32 0]) @
                  map Val (if holding then tl (operands CS) else operands CS) @
                  (case jvmStateCall of
                     Some jvmState \<Rightarrow>
                       concat (map (\<lambda>(t, v). [i32 t, Val v]) (stackElements jvmState)) @
                       concat (map (\<lambda>(t, v). [i32 t, Val v]) (locals jvmState)) @
                       map Val (monitors jvmState)
                   | None \<Rightarrow> []);
                start = length args;
                args' = args @ map Val liveVariables
            in
              if inst_type CS \<noteq> VoidTy \<and> \<not> use_empty F (valueOf CS) \<and>
                 \<not> (inst_type CS = IntegerTy \<or> inst_type CS = FloatingPointTy \<or>
                    isPointerTy (inst_type CS))
              then Inl Unreachable
              else
                (case gc_relocates start liveVariables (zip basePtrs liveVariables) of
                   Inl e \<Rightarrow> Inl e
                 | Inr relocs \<Rightarrow>
                     let gc_result =
                           (if inst_type CS \<noteq> VoidTy \<and> \<not> use_empty F (valueOf CS)
                            then Some [SafepointToken] else None);
                         token_parent = BlockOfFunction (bb_id BB);
                         emitted_parent =
                           (if isCallInst CS then BlockOfFunction (bb_id BB)
                            else InvokeSafepointNormalDest);
                         last_parent =
                           (if relocs \<noteq> [] then emitted_parent
                            else if gc_result \<noteq> None then emitted_parent
                            else token_parent)
                     in
                       (case VerifySafepointBounds F (token_parent, last_parent) of
                          Inl e \<Rightarrow> Inl e
                        | Inr verified \<Rightarrow>
                            Inr \<lparr>statepoint_args = args',
                                 live_start = start,
                                 gc_result_args = gc_result,
                                 gc_relocate_args = relocs\<rparr>)))"

subsection \<open>Example input for CreateSafepoint\<close>

definition ex_obj :: Value where
  "ex_obj = Argument 0 (PointerTy 1)"

definition ex_derived :: Value where
  "ex_derived = InstructionValue 20 (PointerTy 1)"

definition ex_site :: CallSite where
  "ex_site = ex_inst 21 VoidTy (Call (CalledFunction (ex_decl ''foo'' not_intrinsic []))) [] []"

definition ex_siteFunction :: Function where
  "ex_siteFunction =
     \<lparr>fn_name = ''h'', fn_attrs = [], fn_args = [ex_obj],
      blocks = [\<lparr>bb_id = 0,
                 insts = [ex_inst 20 (PointerTy 1) OtherInst [ex_obj] [], ex_site,
                          ex_inst 22 VoidTy Terminator [ex_derived] []]\<rparr>]\<rparr>"


subsection \<open>Liveness of GC pointers by dataflow\<close>

text \<open>
  \<^verbatim>\<open>GCPtrLivenessData\<close>: two \<^verbatim>\<open>DenseMap\<close>s from blocks to sets of values.
\<close>

record GCPtrLivenessData =
  LiveIn :: "ident \<rightharpoonup> Value set"
  LiveOut :: "ident \<rightharpoonup> Value set"

text \<open>
  The USE step for one operand: it enters the set when its type is a GC pointer and it
  is neither null nor undef.
\<close>

definition addUse :: "Value set \<Rightarrow> Value \<Rightarrow> Value set" where
  "addUse LiveTmp V =
     (if isGCPointerType (getType V) \<and> \<not> isNull V \<and> \<not> isUndefValue V
      then insert V LiveTmp else LiveTmp)"

text \<open>
  \<^verbatim>\<open>computeGCPtrLiveness(rbegin, rend, LiveTmp)\<close>: the instructions are given in the
  order of the reverse iteration.  Each one is erased from the set, then its operands
  are added.
\<close>

fun computeGCPtrLiveness_range :: "Instruction list \<Rightarrow> Value set \<Rightarrow> Value set" where
  "computeGCPtrLiveness_range [] LiveTmp = LiveTmp"
| "computeGCPtrLiveness_range (I # ritr) LiveTmp =
     computeGCPtrLiveness_range ritr (foldl addUse (LiveTmp - {valueOf I}) (getOperands I))"

text \<open>
  \<^verbatim>\<open>findLiveSetAtInst\<close>.  The reverse iterator \<^verbatim>\<open>rend(inst)\<close> has \<^verbatim>\<open>inst\<close> as its
  base, so the walk from \<^verbatim>\<open>BB->rbegin()\<close> ends after it has processed \<^verbatim>\<open>inst\<close>
  itself: the instructions walked are those from \<^verbatim>\<open>inst\<close> to the end of the block,
  last one first.
\<close>

definition findLiveSetAtInst ::
  "Function \<Rightarrow> Instruction \<Rightarrow> GCPtrLivenessData \<Rightarrow> Value set \<Rightarrow> error + Value set" where
  "findLiveSetAtInst F inst Data out =
     (case getParent F inst of
        None \<Rightarrow> Inl AssertionFailed
      | Some BB \<Rightarrow>
          (case LiveOut Data (bb_id BB) of
             None \<Rightarrow> Inl AssertionFailed
           | Some LiveOut' \<Rightarrow>
               let LiveTmp = computeGCPtrLiveness_range
                               (rev (dropWhile (\<lambda>I. I \<noteq> inst) (insts BB))) LiveOut'
               in Inr (out \<union> (LiveTmp - {valueOf inst}))))"

text \<open>The union of the live-in sets of the successors, with the assertion on each.\<close>

fun unionLiveIn :: "(ident \<rightharpoonup> Value set) \<Rightarrow> ident list \<Rightarrow> Value set \<Rightarrow> error + Value set" where
  "unionLiveIn LI [] acc = Inr acc"
| "unionLiveIn LI (succ # rest) acc =
     (case LI succ of
        None \<Rightarrow> Inl AssertionFailed
      | Some S \<Rightarrow> unionLiveIn LI rest (acc \<union> S))"

text \<open>
  The worklist loop of \<^verbatim>\<open>computeGCPtrLiveness(F, Data)\<close>.  The head of the list is
  the back of the \<^verbatim>\<open>SmallVector\<close>.  The loop has no bound of its own and is a partial
  function.
\<close>

partial_function (option) computeGCPtrLiveness_worklist ::
  "Function \<Rightarrow> BasicBlock list \<Rightarrow> GCPtrLivenessData \<Rightarrow> (error + GCPtrLivenessData) option" where
  "computeGCPtrLiveness_worklist F worklist Data =
     (case worklist of
        [] \<Rightarrow> Some (Inr Data)
      | BB # rest \<Rightarrow>
          (case unionLiveIn (LiveIn Data) (succ_blocks BB) {} of
             Inl e \<Rightarrow> Some (Inl e)
           | Inr LiveOut' \<Rightarrow>
               if LiveOut' \<noteq> {} \<and> LiveOut Data (bb_id BB) = Some LiveOut'
               then computeGCPtrLiveness_worklist F rest Data
               else
                 (case LiveIn Data (bb_id BB) of
                    None \<Rightarrow> Some (Inl AssertionFailed)
                  | Some OldLiveIn \<Rightarrow>
                      let Data1 = Data\<lparr>LiveOut := (LiveOut Data)(bb_id BB \<mapsto> LiveOut')\<rparr>;
                          LiveTmp = computeGCPtrLiveness_range (rev (insts BB)) LiveOut'
                      in if OldLiveIn \<noteq> LiveTmp
                         then computeGCPtrLiveness_worklist F
                                ((if LiveTmp \<noteq> {} then rev (predecessors F (bb_id BB)) else [])
                                 @ rest)
                                (Data1\<lparr>LiveIn := (LiveIn Data1)(bb_id BB \<mapsto> LiveTmp)\<rparr>)
                         else computeGCPtrLiveness_worklist F rest Data1)))"

definition emptySets :: "Function \<Rightarrow> ident \<rightharpoonup> Value set" where
  "emptySets F = map_of (map (\<lambda>BB. (bb_id BB, {})) (blocks F))"

definition computeGCPtrLiveness :: "Function \<Rightarrow> (error + GCPtrLivenessData) option" where
  "computeGCPtrLiveness F =
     computeGCPtrLiveness_worklist F (rev (blocks F))
       \<lparr>LiveIn = emptySets F, LiveOut = emptySets F\<rparr>"

text \<open>
  The values that the USE step can add anywhere in the function: the operands of its
  instructions that have GC-pointer type and are neither null nor undef.
\<close>

definition gcOperands :: "Function \<Rightarrow> Value set" where
  "gcOperands F =
     {V. isGCPointerType (getType V) \<and> \<not> isNull V \<and> \<not> isUndefValue V \<and>
         V \<in> (\<Union>I \<in> set (instructions F). set (getOperands I))}"


text \<open>The invariant of the worklist loop: every set of the data holds such operands only.\<close>

definition cleanData :: "Function \<Rightarrow> GCPtrLivenessData \<Rightarrow> bool" where
  "cleanData F Data =
     ((\<forall>b S. LiveIn Data b = Some S \<longrightarrow> S \<subseteq> gcOperands F) \<and>
      (\<forall>b S. LiveOut Data b = Some S \<longrightarrow> S \<subseteq> gcOperands F))"


subsection \<open>Example input for liveness\<close>

definition ex_p :: Value where
  "ex_p = InstructionValue 30 (PointerTy 1)"

definition ex_q :: Value where
  "ex_q = InstructionValue 32 (PointerTy 1)"

definition ex_liveCall :: Instruction where
  "ex_liveCall =
     ex_inst 32 (PointerTy 1) (Call (CalledFunction (ex_decl ''bar'' not_intrinsic [])))
       [ex_p, ConstantPointerNull (PointerTy 1), UndefValue (PointerTy 1), ConstantInt 7] []"

definition ex_liveFunction :: Function where
  "ex_liveFunction =
     \<lparr>fn_name = ''k'', fn_attrs = [], fn_args = [ex_obj],
      blocks = [\<lparr>bb_id = 0, insts = [ex_inst 30 (PointerTy 1) OtherInst [ex_obj] [], ex_br 31 [1]]\<rparr>,
                \<lparr>bb_id = 1, insts = [ex_liveCall, ex_inst 33 VoidTy Terminator [ex_q, ex_obj] []]\<rparr>]\<rparr>"

definition ex_liveData :: GCPtrLivenessData where
  "ex_liveData =
     \<lparr>LiveIn = (emptySets ex_liveFunction)(1 \<mapsto> {ex_p, ex_obj}, 0 \<mapsto> {ex_obj}),
      LiveOut = (emptySets ex_liveFunction)(1 \<mapsto> {}, 0 \<mapsto> {ex_p, ex_obj})\<rparr>"

subsection \<open>Editing the instruction lists\<close>

text \<open>
  The primitives that \<^verbatim>\<open>relocationViaAlloca\<close> uses to change the function: a new
  instruction gets an identifier that no instruction of the function has, and is put
  before or after the instruction with a given identifier.
\<close>

definition bindE :: "error + 'a \<Rightarrow> ('a \<Rightarrow> error + 'b) \<Rightarrow> error + 'b" where
  "bindE m f = (case m of Inl e \<Rightarrow> Inl e | Inr x \<Rightarrow> f x)"

definition freshId :: "Function \<Rightarrow> ident" where
  "freshId F = Suc (fold max (map inst_id (instructions F)) 0)"

definition updateInsts :: "(Instruction list \<Rightarrow> Instruction list) \<Rightarrow> Function \<Rightarrow> Function" where
  "updateInsts f F = F\<lparr>blocks := map (\<lambda>BB. BB\<lparr>insts := f (insts BB)\<rparr>) (blocks F)\<rparr>"

fun insertBefore_list :: "ident \<Rightarrow> Instruction \<Rightarrow> Instruction list \<Rightarrow> Instruction list" where
  "insertBefore_list pos new [] = []"
| "insertBefore_list pos new (I # rest) =
     (if inst_id I = pos then new # I # rest else I # insertBefore_list pos new rest)"

fun insertAfter_list :: "ident \<Rightarrow> Instruction \<Rightarrow> Instruction list \<Rightarrow> Instruction list" where
  "insertAfter_list pos new [] = []"
| "insertAfter_list pos new (I # rest) =
     (if inst_id I = pos then I # new # rest else I # insertAfter_list pos new rest)"

definition insertBefore :: "Function \<Rightarrow> ident \<Rightarrow> Instruction \<Rightarrow> Function" where
  "insertBefore F pos new = updateInsts (insertBefore_list pos new) F"

definition insertAfter :: "Function \<Rightarrow> ident \<Rightarrow> Instruction \<Rightarrow> Function" where
  "insertAfter F pos new = updateInsts (insertAfter_list pos new) F"

definition newInst :: "Function \<Rightarrow> Type \<Rightarrow> Opcode \<Rightarrow> Value list \<Rightarrow> Instruction" where
  "newInst F T opc ops =
     \<lparr>inst_id = freshId F, inst_type = T, opcode = opc, operands = ops, successors = []\<rparr>"

text \<open>\<^verbatim>\<open>replaceUsesOfWith\<close> on the instruction with the given identifier.\<close>

definition replaceInOpcode :: "Value \<Rightarrow> Value \<Rightarrow> Opcode \<Rightarrow> Opcode" where
  "replaceInOpcode From To opc =
     (case opc of
        Call (IndirectCallee v) \<Rightarrow> Call (IndirectCallee (if v = From then To else v))
      | Invoke (IndirectCallee v) \<Rightarrow> Invoke (IndirectCallee (if v = From then To else v))
      | _ \<Rightarrow> opc)"

definition replaceUsesOfWith :: "Function \<Rightarrow> ident \<Rightarrow> Value \<Rightarrow> Value \<Rightarrow> Function" where
  "replaceUsesOfWith F use From To =
     updateInsts
       (map (\<lambda>I. if inst_id I = use
                  then I\<lparr>opcode := replaceInOpcode From To (opcode I),
                         operands := map (\<lambda>v. if v = From then To else v) (operands I)\<rparr>
                  else I)) F"

text \<open>\<^verbatim>\<open>setIncomingValue(i, V)\<close> on the phi with the given identifier.\<close>

definition setIncomingValue :: "Function \<Rightarrow> ident \<Rightarrow> nat \<Rightarrow> Value \<Rightarrow> Function" where
  "setIncomingValue F phi i V =
     updateInsts
       (map (\<lambda>I. if inst_id I = phi then I\<lparr>operands := (operands I)[i := V]\<rparr> else I)) F"

definition getFirstNonPHI :: "BasicBlock \<Rightarrow> Instruction option" where
  "getFirstNonPHI BB = find (\<lambda>I. \<not> isPHINode I) (insts BB)"

definition countAllocas :: "Function \<Rightarrow> nat" where
  "countAllocas F = length (filter isAllocaInst (instructions F))"

text \<open>The alloca instructions of the function, each by its identity, in order.\<close>

definition allocaIds :: "Function \<Rightarrow> ident list" where
  "allocaIds F = map inst_id (filter isAllocaInst (instructions F))"

text \<open>
  A change of the function keeps its allocas: the alloca instructions are the same ones
  in the same order, and an alloca without operands that is in the function is still in
  it, as it was.
\<close>

definition keepsAllocas :: "Function \<Rightarrow> Function \<Rightarrow> bool" where
  "keepsAllocas F F' =
     (allocaIds F' = allocaIds F \<and>
      (\<forall>I. I \<in> set (instructions F) \<and> isAllocaInst I \<and> operands I = [] \<longrightarrow>
           I \<in> set (instructions F')))"

subsection \<open>relocationViaAlloca\<close>

record PartiallyConstructedSafepointRecord =
  liveset :: "Value set"
  base_pairs :: "(Value \<times> Value) list"
  newInsertedDefs :: "Value set"
  safepoint :: "Instruction \<times> Instruction"
  result :: "Value option"

text \<open>
  A \<^verbatim>\<open>DenseMap\<close> from values is an association list here; its iteration order, which
  the source leaves to the hash table, is the order of insertion.
\<close>

fun setEntry :: "'k \<Rightarrow> 'v \<Rightarrow> ('k \<times> 'v) list \<Rightarrow> ('k \<times> 'v) list" where
  "setEntry k v [] = [(k, v)]"
| "setEntry k v ((k', v') # m) =
     (if k' = k then (k, v) # m else (k', v') # setEntry k v m)"

text \<open>
  The first loop: one alloca for every live value, put before the first non-phi
  instruction of the entry block.
\<close>

fun emitAllocas ::
  "Function \<Rightarrow> Value list \<Rightarrow> (Value \<times> Instruction) list \<Rightarrow> Instruction list \<Rightarrow>
   error + (Function \<times> (Value \<times> Instruction) list \<times> Instruction list)" where
  "emitAllocas F [] allocaMap PromotableAllocas = Inr (F, allocaMap, PromotableAllocas)"
| "emitAllocas F (liveValue # live) allocaMap PromotableAllocas =
     (case blocks F of
        [] \<Rightarrow> Inl AssertionFailed
      | entry # others \<Rightarrow>
          (case getFirstNonPHI entry of
             None \<Rightarrow> Inl AssertionFailed
           | Some first \<Rightarrow>
               let alloca = newInst F (PointerTy 0) Alloca []
               in emitAllocas (insertBefore F (inst_id first) alloca) live
                    (setEntry liveValue alloca allocaMap) (PromotableAllocas @ [alloca])))"

text \<open>
  \<^verbatim>\<open>GCRelocateOperands::derivedPtr\<close> is declared in \<^verbatim>\<open>llvm/IR/Statepoint.h\<close>,
  outside the sources.  It is the reader of what \<^verbatim>\<open>CreateSafepoint\<close> writes: the
  third operand of the relocate is \<^verbatim>\<open>live_start + find_index(...)\<close>, a position in the
  whole operand list of the statepoint, and the derived pointer is the operand of the
  statepoint at that position.
\<close>

definition derivedPtr :: "Instruction \<Rightarrow> Instruction \<Rightarrow> Value option" where
  "derivedPtr statepointInst relocate =
     (case operands relocate of
        [token, baseIndex, ConstantInt derivedIndex] \<Rightarrow>
          if 0 \<le> derivedIndex \<and> nat derivedIndex < length (operands statepointInst)
          then Some (operands statepointInst ! nat derivedIndex) else None
      | _ \<Rightarrow> None)"

text \<open>
  \<^verbatim>\<open>findRelocateValuesAtSP\<close>: the loop over the users of the statepoint.  Every user
  has to be an intrinsic call (\<^verbatim>\<open>cast<IntrinsicInst>\<close>).
\<close>

fun findRelocateValuesAtSP ::
  "Instruction \<Rightarrow> Instruction list \<Rightarrow> (Value \<times> Instruction option) list \<Rightarrow>
   error + (Value \<times> Instruction option) list" where
  "findRelocateValuesAtSP statepointInst [] defs = Inr defs"
| "findRelocateValuesAtSP statepointInst (U # Us) defs =
     (case asIntrinsicInst U of
        None \<Rightarrow> Inl AssertionFailed
      | Some ID \<Rightarrow>
          if ID = gc_relocate then
            (case derivedPtr statepointInst U of
               None \<Rightarrow> Inl AssertionFailed
             | Some def \<Rightarrow>
                 findRelocateValuesAtSP statepointInst Us
                   (if def \<in> fst ` set defs then setEntry def (Some U) defs else defs))
          else findRelocateValuesAtSP statepointInst Us defs)"

text \<open>The stores after one statepoint: the relocated value, or null.\<close>

fun storeRelocations ::
  "Function \<Rightarrow> (Value \<times> Instruction) list \<Rightarrow> PartiallyConstructedSafepointRecord \<Rightarrow>
   (Value \<times> Instruction option) list \<Rightarrow> error + Function" where
  "storeRelocations F allocaMap info [] = Inr F"
| "storeRelocations F allocaMap info ((def, relocatedValue) # relocations) =
     (case map_of allocaMap def of
        None \<Rightarrow> Inl AssertionFailed
      | Some alloca \<Rightarrow>
          (case relocatedValue of
             Some relocate \<Rightarrow>
               storeRelocations
                 (insertAfter F (inst_id relocate)
                    (newInst F VoidTy Store [valueOf relocate, valueOf alloca]))
                 allocaMap info relocations
           | None \<Rightarrow>
               if Some def = result info then storeRelocations F allocaMap info relocations
               else if \<not> isPointerTy (getType def) then Inl AssertionFailed
               else
                 storeRelocations
                   (insertAfter F (inst_id (snd (safepoint info)))
                      (newInst F VoidTy Store [ConstantPointerNull (getType def), valueOf alloca]))
                   allocaMap info relocations))"

text \<open>The second loop: over the records.\<close>

fun updateAfterStatepoints ::
  "Function \<Rightarrow> (Value \<times> Instruction) list \<Rightarrow> PartiallyConstructedSafepointRecord list \<Rightarrow>
   error + Function" where
  "updateAfterStatepoints F allocaMap [] = Inr F"
| "updateAfterStatepoints F allocaMap (info # records) =
     bindE (findRelocateValuesAtSP (fst (safepoint info))
              (users F (valueOf (fst (safepoint info))))
              (map (\<lambda>(def, alloca). (def, None)) allocaMap))
       (\<lambda>relocations.
          bindE (storeRelocations F allocaMap info relocations)
            (\<lambda>F'. updateAfterStatepoints F' allocaMap records))"

text \<open>
  The loads for one use of a definition.  For a phi, every incoming value that is the
  definition gets a load before the terminator of its incoming block; any other use
  gets one load before itself.
\<close>

fun loadForIncoming ::
  "Function \<Rightarrow> Value \<Rightarrow> Instruction \<Rightarrow> ident \<Rightarrow> (nat \<times> Value \<times> ident) list \<Rightarrow> error + Function" where
  "loadForIncoming F def alloca phi [] = Inr F"
| "loadForIncoming F def alloca phi ((i, incoming, block) # rest) =
     (if def = incoming then
        (case terminatorOf F block of
           None \<Rightarrow> Inl AssertionFailed
         | Some term \<Rightarrow>
             let load = newInst F (getType def) Load [valueOf alloca]
             in loadForIncoming
                  (setIncomingValue (insertBefore F (inst_id term) load) phi i (valueOf load))
                  def alloca phi rest)
      else loadForIncoming F def alloca phi rest)"

fun loadForUses ::
  "Function \<Rightarrow> Value \<Rightarrow> Instruction \<Rightarrow> Instruction list \<Rightarrow> error + Function" where
  "loadForUses F def alloca [] = Inr F"
| "loadForUses F def alloca (use # uses) =
     (case opcode use of
        PHI incomingBlocks \<Rightarrow>
          bindE (loadForIncoming F def alloca (inst_id use)
                   (zip [0..<length (operands use)] (zip (operands use) incomingBlocks)))
            (\<lambda>F'. loadForUses F' def alloca uses)
      | _ \<Rightarrow>
          let load = newInst F (getType def) Load [valueOf alloca]
          in loadForUses
               (replaceUsesOfWith (insertBefore F (inst_id use) load) (inst_id use) def
                  (valueOf load))
               def alloca uses)"

text \<open>The store of the initial value: after the definition, or after the alloca.\<close>

definition storeInitial :: "Function \<Rightarrow> Value \<Rightarrow> Instruction \<Rightarrow> error + Function" where
  "storeInitial F def alloca =
     (let store = newInst F VoidTy Store [def, valueOf alloca] in
      case def of
        InstructionValue n T \<Rightarrow> Inr (insertAfter F n store)
      | Argument n T \<Rightarrow> Inr (insertAfter F (inst_id alloca) store)
      | GlobalVariable n T \<Rightarrow> Inr (insertAfter F (inst_id alloca) store)
      | _ \<Rightarrow> if isNull def then Inr (insertAfter F (inst_id alloca) store)
             else Inl AssertionFailed)"

text \<open>The third loop: over the map from definitions to allocas.\<close>

fun updateUses :: "Function \<Rightarrow> (Value \<times> Instruction) list \<Rightarrow> error + Function" where
  "updateUses F [] = Inr F"
| "updateUses F ((def, alloca) # allocaMap) =
     bindE (loadForUses F def alloca (users F def))
       (\<lambda>F'. bindE (storeInitial F' def alloca) (\<lambda>F''. updateUses F'' allocaMap))"

text \<open>
  Modelled from the spec: \<^verbatim>\<open>PromoteMemToReg\<close> is LLVM's promotion of stack slots to
  SSA values, outside the sources.  The spec has it run on the allocated slots,
  eliminating them.  So, given alloca instructions of the function, it removes these and
  no other alloca, and adds none: the alloca instructions of the function are then the
  ones it had, without the given ones.  What it does to the loads and the stores is not
  said, and nothing is required of it on a list that is not of allocas of the function.
\<close>

definition eliminatesSlots :: "(Instruction list \<Rightarrow> Function \<Rightarrow> Function) \<Rightarrow> bool" where
  "eliminatesSlots PromoteMemToReg =
     (\<forall>allocas F.
        set allocas \<subseteq> set (instructions F) \<and> list_all isAllocaInst allocas \<longrightarrow>
        allocaIds (PromoteMemToReg allocas F) =
          filter (\<lambda>i. i \<notin> inst_id ` set allocas) (allocaIds F))"

text \<open>
  \<^verbatim>\<open>relocationViaAlloca\<close>.  \<^verbatim>\<open>PromoteMemToReg\<close> is a parameter.  The counting at both
  ends and the final assertion are those of the source in a build with assertions.
\<close>

definition relocationViaAlloca ::
  "(Instruction list \<Rightarrow> Function \<Rightarrow> Function) \<Rightarrow> Function \<Rightarrow> Value list \<Rightarrow>
   PartiallyConstructedSafepointRecord list \<Rightarrow> error + Function" where
  "relocationViaAlloca PromoteMemToReg F live records =
     (let initialAllocaNum = int (countAllocas F) in
      bindE (emitAllocas F live [] [])
        (\<lambda>(F1, allocaMap, PromotableAllocas).
           bindE (updateAfterStatepoints F1 allocaMap records)
             (\<lambda>F2.
                bindE (updateUses F2 allocaMap)
                  (\<lambda>F3.
                     if length PromotableAllocas \<noteq> length live then Inl AssertionFailed
                     else
                       let F4 = (if PromotableAllocas \<noteq> []
                                 then PromoteMemToReg PromotableAllocas F3 else F3)
                       in if initialAllocaNum - int (countAllocas F4) = 0 then Inr F4
                          else Inl AssertionFailed))))"


subsection \<open>Example input for relocationViaAlloca\<close>

text \<open>A promoter for functions of one block, as an instance of the parameter.\<close>

fun ex_promoteInsts ::
  "Instruction list \<Rightarrow> (Value \<times> Value) list \<Rightarrow> (Value \<times> Value) list \<Rightarrow> Instruction list \<Rightarrow> Instruction list" where
  "ex_promoteInsts slots current subst [] = []"
| "ex_promoteInsts slots current subst (I # rest) =
     (let ops = map (\<lambda>v. case map_of subst v of Some w \<Rightarrow> w | None \<Rightarrow> v) (operands I) in
      if opcode I = Alloca \<and> inst_id I \<in> inst_id ` set slots
      then ex_promoteInsts slots current subst rest
      else if opcode I = Store \<and> length ops = 2 \<and> ops ! 1 \<in> valueOf ` set slots
      then ex_promoteInsts slots ((ops ! 1, ops ! 0) # current) subst rest
      else if opcode I = Load \<and> length ops = 1 \<and> ops ! 0 \<in> valueOf ` set slots
      then ex_promoteInsts slots current
             ((valueOf I, case map_of current (ops ! 0) of Some w \<Rightarrow> w | None \<Rightarrow> UndefValue (inst_type I))
              # subst) rest
      else I\<lparr>operands := ops\<rparr> # ex_promoteInsts slots current subst rest)"

definition ex_promote :: "Instruction list \<Rightarrow> Function \<Rightarrow> Function" where
  "ex_promote allocas F = updateInsts (ex_promoteInsts allocas [] []) F"

definition ex_statepoint :: Instruction where
  "ex_statepoint =
     ex_inst 40 IntegerTy (Call (CalledFunction (ex_decl ''llvm.statepoint'' statepoint [])))
       [FunctionRef ''foo'' (PointerTy 0), ConstantInt 0, ConstantInt 0, ConstantInt 0,
        ConstantInt (- 1), ConstantInt 0, ConstantInt 0, ConstantInt 0, ex_obj] []"

definition ex_relocate :: Instruction where
  "ex_relocate =
     ex_inst 41 (PointerTy 1) (Call (CalledFunction (ex_decl ''llvm.gc.relocate'' gc_relocate [])))
       [valueOf ex_statepoint, ConstantInt 8, ConstantInt 8] []"

text \<open>The function has a stack slot of its own, which the phase has to leave alone.\<close>

definition ex_slot :: Instruction where
  "ex_slot = ex_inst 39 (PointerTy 0) Alloca [] []"

definition ex_relocFunction :: Function where
  "ex_relocFunction =
     \<lparr>fn_name = ''r'', fn_attrs = [], fn_args = [ex_obj],
      blocks = [\<lparr>bb_id = 0,
                 insts = [ex_slot, ex_statepoint, ex_relocate,
                          ex_inst 42 VoidTy Terminator [ex_obj] []]\<rparr>]\<rparr>"

definition ex_record :: PartiallyConstructedSafepointRecord where
  "ex_record =
     \<lparr>liveset = {ex_obj}, base_pairs = [(ex_obj, ex_obj)], newInsertedDefs = {},
      safepoint = (ex_statepoint, ex_relocate), result = None\<rparr>"

definition ex_relocated :: Function where
  "ex_relocated =
     \<lparr>fn_name = ''r'', fn_attrs = [], fn_args = [ex_obj],
      blocks = [\<lparr>bb_id = 0,
                 insts = [ex_slot, ex_statepoint, ex_relocate,
                          ex_inst 42 VoidTy Terminator [valueOf ex_relocate] []]\<rparr>]\<rparr>"

subsection \<open>The pass on one function\<close>

text \<open>
  Modelled from the spec: \<^verbatim>\<open>removeUnreachableBlocks\<close> is LLVM's utility, outside the
  sources; the spec says that unreachable blocks are removed before selection.  The
  blocks reachable from the entry block are found by following successors, one round
  for every block of the function, and the other blocks are dropped.
\<close>

definition succ_of :: "Function \<Rightarrow> ident \<Rightarrow> ident list" where
  "succ_of F b = (case getBlock F b of None \<Rightarrow> [] | Some BB \<Rightarrow> succ_blocks BB)"

fun reachableFrom :: "Function \<Rightarrow> nat \<Rightarrow> ident list \<Rightarrow> ident list" where
  "reachableFrom F 0 seen = seen"
| "reachableFrom F (Suc n) seen =
     reachableFrom F n (remdups (seen @ concat (map (succ_of F) seen)))"

definition reachableBlocks :: "Function \<Rightarrow> ident list" where
  "reachableBlocks F =
     (case blocks F of
        [] \<Rightarrow> []
      | entry # others \<Rightarrow> reachableFrom F (length (blocks F)) [bb_id entry])"

definition removeUnreachableBlocks :: "Function \<Rightarrow> Function" where
  "removeUnreachableBlocks F =
     F\<lparr>blocks := filter (\<lambda>BB. bb_id BB \<in> set (reachableBlocks F)) (blocks F)\<rparr>"

text \<open>
  The collaborators of the pass that are not in the sources, or that the claims do not
  look into, are the fields of one record: LLVM's loop simplification, loop information
  and scalar evolution, the inlining of the poll function with the scan of the inlined
  code for calls, the merging of VM states, the promotion of stack slots, the reading of
  the GC arguments of a statepoint, and the phases of \<^verbatim>\<open>insertParsePoints\<close> that work
  on one site at a time, each with the state \<open>'a\<close> that the pass carries between
  them and each leaving the site and updating its record: the holder of the VM state
  put after a site, liveness, base pointers, the holder of the bases put after a site,
  and then the remaining phases (fix-up of liveness, insertion of the statepoint,
  replacement of the original call).
\<close>

type_synonym 'a SiteStep =
  "Function \<times> 'a \<Rightarrow> CallSite \<times> PartiallyConstructedSafepointRecord \<Rightarrow>
   error + ((Function \<times> 'a) \<times> PartiallyConstructedSafepointRecord)"

record 'a Collaborators =
  LoopSimplify :: "Function \<Rightarrow> Function"
  LoopInfo :: "Function \<Rightarrow> Loop list"
  tripCounts :: ScalarEvolution
  inlinePollAndScan :: "Function \<Rightarrow> Instruction option \<Rightarrow> error + (Function \<times> CallSite list)"
  MergeNonDominatingVMStates :: "Instruction list \<Rightarrow> Function \<Rightarrow> Function"
  initialState :: 'a
  holdVMState :: "Function \<times> 'a \<Rightarrow> CallSite \<Rightarrow> error + (Function \<times> 'a)"
  analyzeSite ::
    "Function \<times> 'a \<Rightarrow> CallSite \<Rightarrow> error + ((Function \<times> 'a) \<times> PartiallyConstructedSafepointRecord)"
  findBasePointers :: "'a SiteStep"
  holdBases :: "'a SiteStep"
  sitePhases :: "'a SiteStep list"
  gc_args :: "Function \<Rightarrow> Instruction \<Rightarrow> Value list"
  MemToReg :: "Instruction list \<Rightarrow> Function \<Rightarrow> Function"

text \<open>
  \<^verbatim>\<open>InsertSafepointPoll\<close>: after the inlining, the calls found in the inlined code
  must not be empty, and those that need a statepoint are the parse points.
\<close>

definition InsertSafepointPoll ::
  "'a Collaborators \<Rightarrow> Function \<Rightarrow> Instruction option \<Rightarrow> error + (Function \<times> CallSite list)" where
  "InsertSafepointPoll col F term =
     bindE (inlinePollAndScan col F term)
       (\<lambda>(F', calls).
          if calls = [] then Inl AssertionFailed
          else Inr (F', filter needsStatepoint calls))"

text \<open>The loop pass manager runs \<^verbatim>\<open>runOnLoop\<close> on every loop of the function.\<close>

fun collectPollLocations ::
  "Options \<Rightarrow> ScalarEvolution \<Rightarrow> Function \<Rightarrow> Loop list \<Rightarrow> Instruction option list \<Rightarrow>
   error + Instruction option list" where
  "collectPollLocations opts SE F [] PollLocations = Inr PollLocations"
| "collectPollLocations opts SE F (L # Ls) PollLocations =
     bindE (runOnLoop opts SE F L PollLocations)
       (\<lambda>(modified, PollLocations'). collectPollLocations opts SE F Ls PollLocations')"

text \<open>The loop that inserts a poll at every location the analysis found.\<close>

fun insertPolls ::
  "'a Collaborators \<Rightarrow> Function \<Rightarrow> Instruction option list \<Rightarrow> CallSite list \<Rightarrow>
   error + (Function \<times> CallSite list)" where
  "insertPolls col F [] ParsePointNeeded = Inr (F, ParsePointNeeded)"
| "insertPolls col F (term # PollLocations) ParsePointNeeded =
     bindE (InsertSafepointPoll col F term)
       (\<lambda>(F', ParsePoints). insertPolls col F' PollLocations (ParsePointNeeded @ ParsePoints))"

text \<open>
  \<^verbatim>\<open>insertParsePoints\<close>.  Every loop of the source runs over the sites or over their
  records: when a VM state is required the loop that puts its holder after every site,
  then the loop that makes the records, the base pointers, the loop that puts the holder
  of the bases after every site, the remaining phases, each over all sites, then the
  collection of the live values from the statepoints and \<^verbatim>\<open>relocationViaAlloca\<close>.
  The two loops that put holders assert that the site is a call, not an invoke.
\<close>

fun holdVMStates ::
  "'a Collaborators \<Rightarrow> Function \<times> 'a \<Rightarrow> CallSite list \<Rightarrow> error + (Function \<times> 'a)" where
  "holdVMStates col st [] = Inr st"
| "holdVMStates col st (CS # toUpdate) =
     (if \<not> isCallInst CS then Inl AssertionFailed
      else bindE (holdVMState col st CS) (\<lambda>st'. holdVMStates col st' toUpdate))"

definition holdBasesOfCall :: "'a Collaborators \<Rightarrow> 'a SiteStep" where
  "holdBasesOfCall col st site =
     (if \<not> isCallInst (fst site) then Inl AssertionFailed else holdBases col st site)"

fun createRecords ::
  "(Function \<times> 'a \<Rightarrow> CallSite \<Rightarrow> error + ((Function \<times> 'a) \<times> PartiallyConstructedSafepointRecord)) \<Rightarrow>
   Function \<times> 'a \<Rightarrow> CallSite list \<Rightarrow>
   error + ((Function \<times> 'a) \<times> (CallSite \<times> PartiallyConstructedSafepointRecord) list)" where
  "createRecords analyze st [] = Inr (st, [])"
| "createRecords analyze st (CS # toUpdate) =
     bindE (analyze st CS)
       (\<lambda>(st', info).
          bindE (createRecords analyze st' toUpdate)
            (\<lambda>(st'', sites). Inr (st'', (CS, info) # sites)))"

fun forEachSite ::
  "'a SiteStep \<Rightarrow> Function \<times> 'a \<Rightarrow> (CallSite \<times> PartiallyConstructedSafepointRecord) list \<Rightarrow>
   error + ((Function \<times> 'a) \<times> (CallSite \<times> PartiallyConstructedSafepointRecord) list)" where
  "forEachSite step st [] = Inr (st, [])"
| "forEachSite step st (site # sites) =
     bindE (step st site)
       (\<lambda>(st', info).
          bindE (forEachSite step st' sites)
            (\<lambda>(st'', sites'). Inr (st'', (fst site, info) # sites')))"

fun runPhases ::
  "'a SiteStep list \<Rightarrow> Function \<times> 'a \<Rightarrow> (CallSite \<times> PartiallyConstructedSafepointRecord) list \<Rightarrow>
   error + ((Function \<times> 'a) \<times> (CallSite \<times> PartiallyConstructedSafepointRecord) list)" where
  "runPhases [] st sites = Inr (st, sites)"
| "runPhases (step # steps) st sites =
     bindE (forEachSite step st sites) (\<lambda>(st', sites'). runPhases steps st' sites')"

definition insertParsePoints ::
  "'a Collaborators \<Rightarrow> Options \<Rightarrow> Function \<Rightarrow> CallSite list \<Rightarrow> error + (bool \<times> Function)" where
  "insertParsePoints col opts F toUpdate =
     (if \<not> distinct toUpdate then Inl AssertionFailed
      else if \<not> list_all (\<lambda>CS. CS \<in> set (instructions F)) toUpdate then Inl AssertionFailed
      else
        bindE (if VMStateRequired opts then holdVMStates col (F, initialState col) toUpdate
               else Inr (F, initialState col))
          (\<lambda>st0.
        bindE (createRecords (analyzeSite col) st0 toUpdate)
          (\<lambda>(st, sites).
        bindE (forEachSite (findBasePointers col) st sites)
          (\<lambda>(st1, sites1).
        bindE (forEachSite (holdBasesOfCall col) st1 sites1)
          (\<lambda>(st2, sites2).
        bindE (runPhases (sitePhases col) st2 sites2)
          (\<lambda>((F1, a), sites3).
             let records = map snd sites3;
                 live = unique_unsorted
                          (concat (map (\<lambda>info. gc_args col F1 (fst (safepoint info))) records))
             in if \<not> list_all (\<lambda>ptr. isGCPointerType (getType ptr)) live
                then Inl AssertionFailed
                else bindE (relocationViaAlloca (MemToReg col) F1 live records)
                       (\<lambda>F2. Inr (records \<noteq> [], F2))))))))"

text \<open>
  \<^verbatim>\<open>runOnFunction\<close>, in its three steps and the final insertion.  The verifier calls
  change nothing and are left out.  The result is the flag \<^verbatim>\<open>modified\<close> and the
  function as the pass leaves it; \<open>None\<close> is the walk to the entry poll never ending.
\<close>

definition backedgeStep ::
  "'a Collaborators \<Rightarrow> Options \<Rightarrow> Function \<Rightarrow> error + (bool \<times> Function \<times> CallSite list)" where
  "backedgeStep col opts F =
     (if NoBackedge opts then Inr (False, F, [])
      else
        let F1 = LoopSimplify col F in
        bindE (collectPollLocations opts (tripCounts col) F1 (LoopInfo col F1) [])
          (\<lambda>PollLocations.
             bindE (insertPolls col F1 PollLocations [])
               (\<lambda>(F2, ParsePointNeeded). Inr (PollLocations \<noteq> [], F2, ParsePointNeeded))))"

definition entryStep ::
  "'a Collaborators \<Rightarrow> Options \<Rightarrow> Function \<Rightarrow> (error + (bool \<times> Function \<times> CallSite list)) option" where
  "entryStep col opts F =
     (if NoEntry opts then Some (Inr (False, F, []))
      else
        (case findLocationForEntrySafepoint opts F of
           None \<Rightarrow> None
         | Some (Inl e) \<Rightarrow> Some (Inl e)
         | Some (Inr None) \<Rightarrow> Some (Inr (False, F, []))
         | Some (Inr (Some term)) \<Rightarrow>
             Some (bindE (InsertSafepointPoll col F (Some term))
                     (\<lambda>(F', RuntimeCalls). Inr (True, F', RuntimeCalls)))))"

definition callStep :: "Options \<Rightarrow> Function \<Rightarrow> error + CallSite list" where
  "callStep opts F = (if NoCall opts then Inr [] else findCallSafepoints opts F)"

definition runOnFunction ::
  "'a Collaborators \<Rightarrow> Options \<Rightarrow> Function \<Rightarrow> (error + (bool \<times> Function)) option" where
  "runOnFunction col opts F =
     (if blocks F = [] then Some (Inr (False, F))
      else
        let F0 = removeUnreachableBlocks F;
            modified0 = (length (blocks F0) \<noteq> length (blocks F))
        in
          (case backedgeStep col opts F0 of
             Inl e \<Rightarrow> Some (Inl e)
           | Inr (modified1, F1, ParsePoints1) \<Rightarrow>
               (case entryStep col opts F1 of
                  None \<Rightarrow> None
                | Some (Inl e) \<Rightarrow> Some (Inl e)
                | Some (Inr (modified2, F2, ParsePoints2)) \<Rightarrow>
                    (case callStep opts F2 of
                       Inl e \<Rightarrow> Some (Inl e)
                     | Inr Calls \<Rightarrow>
                         let ParsePointNeeded =
                               unique_unsorted (ParsePoints1 @ ParsePoints2 @ Calls);
                             F3 = (if VMStateRequired opts
                                   then MergeNonDominatingVMStates col ParsePointNeeded F2
                                   else F2)
                         in Some (bindE (insertParsePoints col opts F3 ParsePointNeeded)
                                    (\<lambda>(modified3, F4).
                                       Inr (modified0 \<or> modified1 \<or> modified2 \<or> modified3,
                                            F4)))))))"

text \<open>The passes outside the sources that run on every function, selected or not.\<close>

definition externalPasses :: "'a Collaborators \<Rightarrow> Options \<Rightarrow> Function \<Rightarrow> Function" where
  "externalPasses col opts F =
     (let F1 = (if NoBackedge opts then F else LoopSimplify col F)
      in if VMStateRequired opts then MergeNonDominatingVMStates col [] F1 else F1)"

subsection \<open>Example input for the pass\<close>

definition ex_collaborators :: "unit Collaborators" where
  "ex_collaborators =
     \<lparr>LoopSimplify = (\<lambda>F. F),
      LoopInfo = (\<lambda>F. []),
      tripCounts = (\<lambda>L b. 0),
      inlinePollAndScan = (\<lambda>F term. Inl Unreachable),
      MergeNonDominatingVMStates = (\<lambda>locations F. F),
      initialState = (),
      holdVMState = (\<lambda>st CS. Inl Unreachable),
      analyzeSite = (\<lambda>st CS. Inl Unreachable),
      findBasePointers = (\<lambda>st site. Inl Unreachable),
      holdBases = (\<lambda>st site. Inl Unreachable),
      sitePhases = [],
      gc_args = (\<lambda>F I. []),
      MemToReg = (\<lambda>allocas F. F)\<rparr>"

definition ex_deadBlockFunction :: Function where
  "ex_deadBlockFunction =
     \<lparr>fn_name = ''u'', fn_attrs = [], fn_args = [],
      blocks = [\<lparr>bb_id = 0, insts = [ex_br 50 [1]]\<rparr>,
                \<lparr>bb_id = 1, insts = [ex_br 51 []]\<rparr>,
                \<lparr>bb_id = 2, insts = [ex_br 52 [1]]\<rparr>]\<rparr>"

definition ex_liveBlocksFunction :: Function where
  "ex_liveBlocksFunction =
     \<lparr>fn_name = ''u'', fn_attrs = [], fn_args = [],
      blocks = [\<lparr>bb_id = 0, insts = [ex_br 50 [1]]\<rparr>,
                \<lparr>bb_id = 1, insts = [ex_br 51 []]\<rparr>]\<rparr>"


section \<open>Properties\<close>

subsection \<open>unique_unsorted keeps the first occurrences, in order\<close>

lemma upt_Suc_shift: "[0..<Suc n] = 0 # map Suc [0..<n]"
  by (simp add: upt_conv_Cons map_Suc_upt del: upt_Suc)

lemma unique_unsorted_loop_eq:
  "unique_unsorted_loop tmp seen vec =
     vec @ map (\<lambda>i. tmp ! i)
             (filter (\<lambda>i. tmp ! i \<notin> seen \<union> set (take i tmp)) [0..<length tmp])"
proof (induction tmp arbitrary: seen vec)
  case Nil
  show ?case by simp
next
  case (Cons V tmp)
  have len: "[0..<length (V # tmp)] = 0 # map Suc [0..<length tmp]"
    using upt_Suc_shift [of "length tmp"] by simp
  show ?case
  proof (cases "V \<in> seen")
    case True
    have same: "(\<lambda>x. tmp ! x \<notin> seen \<and> tmp ! x \<noteq> V \<and> tmp ! x \<notin> set (take x tmp)) =
                (\<lambda>i. tmp ! i \<notin> seen \<and> tmp ! i \<notin> set (take i tmp))"
      using True by auto
    show ?thesis
      unfolding len using True by (simp add: Cons.IH filter_map comp_def same)
  next
    case False
    have same: "(\<lambda>i. tmp ! i \<noteq> V \<and> tmp ! i \<notin> seen \<and> tmp ! i \<notin> set (take i tmp)) =
                (\<lambda>x. tmp ! x \<notin> seen \<and> tmp ! x \<noteq> V \<and> tmp ! x \<notin> set (take x tmp))"
      by auto
    show ?thesis
      unfolding len using False by (simp add: Cons.IH filter_map comp_def same)
  qed
qed

lemma first_occurrences_Nil: "first_occurrences [] = []"
  by (simp add: first_occurrences_def)

lemma first_occurrences_snoc:
  "first_occurrences (xs @ [x]) = first_occurrences xs @ (if x \<in> set xs then [] else [x])"
proof -
  have "filter (\<lambda>i. (xs @ [x]) ! i \<notin> set (take i (xs @ [x]))) [0..<length xs] =
        filter (\<lambda>i. xs ! i \<notin> set (take i xs)) [0..<length xs]"
    by (rule filter_cong) (auto simp: nth_append)
  moreover have
    "map ((!) (xs @ [x])) (filter (\<lambda>i. xs ! i \<notin> set (take i xs)) [0..<length xs]) =
     map ((!) xs) (filter (\<lambda>i. xs ! i \<notin> set (take i xs)) [0..<length xs])"
    by (rule map_cong) (auto simp: nth_append)
  ultimately show ?thesis
    by (simp add: first_occurrences_def)
qed

lemma set_first_occurrences: "set (first_occurrences xs) = set xs"
  by (induction xs rule: rev_induct) (auto simp: first_occurrences_snoc first_occurrences_Nil)

lemma distinct_first_occurrences: "distinct (first_occurrences xs)"
  by (induction xs rule: rev_induct)
     (auto simp: first_occurrences_snoc set_first_occurrences first_occurrences_Nil)

text \<open>
  C10.  For every input vector, \<^verbatim>\<open>unique_unsorted\<close> leaves exactly the elements that
  stand at the position of their first occurrence, in the order of those positions: the
  output has no duplicates, has the same elements as the input, and is ordered by first
  occurrence.
\<close>

theorem unique_unsorted_first_occurrence:
  "unique_unsorted vec = first_occurrences vec \<and>
   distinct (unique_unsorted vec) \<and>
   set (unique_unsorted vec) = set vec"
proof -
  have "unique_unsorted vec = first_occurrences vec"
    by (simp add: unique_unsorted_def unique_unsorted_loop_eq first_occurrences_def)
  then show ?thesis
    by (simp add: set_first_occurrences distinct_first_occurrences)
qed

subsection \<open>The meet of the base-pointer lattice\<close>

lemma pureMeet_Unknown:
  "isLatticeState x \<Longrightarrow> pureMeet PhiState_default x = Inr x"
  by (cases x) (auto simp: pureMeet_def PhiState_default_def PhiState_copy_def isLatticeState_def)

lemma pureMeet_Conflict:
  "pureMeet \<lparr>status = Conflict, base = None\<rparr> x = Inr \<lparr>status = Conflict, base = None\<rparr>"
  by (simp add: pureMeet_def PhiState_copy_def)

lemma pureMeet_Base_same:
  "pureMeet (PhiState_of_base (Some b)) (PhiState_of_base (Some b)) = Inr (PhiState_of_base (Some b))"
  by (simp add: pureMeet_def PhiState_copy_def PhiState_of_base_def isUnknown_def isBase_def)

lemma pureMeet_Base_distinct:
  "b1 \<noteq> b2 \<Longrightarrow>
   pureMeet (PhiState_of_base (Some b1)) (PhiState_of_base (Some b2)) =
     Inr \<lparr>status = Conflict, base = None\<rparr>"
  by (simp add: pureMeet_def PhiState_of_status_def PhiState_of_base_def isUnknown_def isBase_def)

text \<open>
  C1.  The four meet rules.  With \<open>Unknown\<close> the state \<^verbatim>\<open>PhiState()\<close>, \<open>Base(b)\<close> the
  state \<^verbatim>\<open>PhiState(b)\<close> and \<open>Conflict\<close> the state \<^verbatim>\<open>PhiState(PhiState::Conflict)\<close>:
  Unknown meet x is x for every lattice state x, Conflict meet x is Conflict for every
  x, Base(b) meet Base(b) is Base(b), and Base(b1) meet Base(b2) is Conflict when b1 and
  b2 differ.  No assertion fails in any of the four.
\<close>

theorem pureMeet_rules:
  "isLatticeState x \<Longrightarrow> b1 \<noteq> b2 \<Longrightarrow>
   pureMeet PhiState_default x = Inr x \<and>
   pureMeet \<lparr>status = Conflict, base = None\<rparr> x = Inr \<lparr>status = Conflict, base = None\<rparr> \<and>
   pureMeet (PhiState_of_base (Some b)) (PhiState_of_base (Some b)) =
     Inr (PhiState_of_base (Some b)) \<and>
   pureMeet (PhiState_of_base (Some b1)) (PhiState_of_base (Some b2)) =
     Inr \<lparr>status = Conflict, base = None\<rparr>"
  by (simp only: pureMeet_Unknown pureMeet_Conflict pureMeet_Base_same pureMeet_Base_distinct
        simp_thms)

theorem pureMeet_rules_witness:
  "isLatticeState (PhiState_of_base (Some (7::nat))) \<and> (1::nat) \<noteq> 2 \<and>
   pureMeet PhiState_default (PhiState_of_base (Some (7::nat))) =
     Inr (PhiState_of_base (Some 7)) \<and>
   pureMeet \<lparr>status = Conflict, base = None\<rparr> (PhiState_of_base (Some (7::nat))) =
     Inr \<lparr>status = Conflict, base = None\<rparr> \<and>
   pureMeet (PhiState_of_base (Some (5::nat))) (PhiState_of_base (Some 5)) =
     Inr (PhiState_of_base (Some 5)) \<and>
   pureMeet (PhiState_of_base (Some (1::nat))) (PhiState_of_base (Some 2)) =
     Inr \<lparr>status = Conflict, base = None\<rparr>"
proof -
  have h1: "isLatticeState (PhiState_of_base (Some (7::nat)))"
    by (simp add: isLatticeState_def PhiState_of_base_def)
  have h2: "(1::nat) \<noteq> 2" by simp
  show ?thesis
    using h1 h2 pureMeet_rules [OF h1 h2, of 5] by simp
qed

lemma pureMeet_commute:
  "isLatticeState a \<Longrightarrow> isLatticeState b \<Longrightarrow> pureMeet a b = pureMeet b a"
  by (cases a; cases b)
     (auto simp: isLatticeState_def pureMeet_def PhiState_copy_def PhiState_of_status_def
        isUnknown_def isBase_def isConflict_def split: Status.splits)

lemma pureMeet_idem: "isLatticeState a \<Longrightarrow> pureMeet a a = Inr a"
  by (cases a)
     (auto simp: isLatticeState_def pureMeet_def PhiState_copy_def PhiState_of_status_def
        isUnknown_def isBase_def isConflict_def split: Status.splits)

lemma pureMeet_closed:
  "isLatticeState a \<Longrightarrow> isLatticeState b \<Longrightarrow> \<exists>r. pureMeet a b = Inr r \<and> isLatticeState r"
  by (cases a; cases b)
     (auto simp: isLatticeState_def pureMeet_def PhiState_copy_def PhiState_of_status_def
        isUnknown_def isBase_def isConflict_def split: Status.splits)

text \<open>
  The assertion in \<^verbatim>\<open>meetWith\<close> that the meet commutes never fails while the map and
  the running result hold lattice states.
\<close>

lemma meetWith_assert_holds:
  assumes "isLatticeState currentResult"
    and "getStateForBDV isKnownBaseResult phiStates V = Inr otherState"
    and "isLatticeState otherState"
  shows "meetWith isKnownBaseResult phiStates currentResult V = pureMeet otherState currentResult"
  using assms pureMeet_commute [of otherState currentResult] by (simp add: meetWith_def)

text \<open>
  C2.  On the states of the lattice the meet is commutative and idempotent, and it
  yields a lattice state (no assertion fails).
\<close>

theorem pureMeet_commutative_idempotent:
  "isLatticeState a \<Longrightarrow> isLatticeState b \<Longrightarrow>
   pureMeet a b = pureMeet b a \<and> pureMeet a a = Inr a \<and>
   (\<exists>r. pureMeet a b = Inr r \<and> isLatticeState r)"
  by (simp only: pureMeet_commute pureMeet_idem pureMeet_closed simp_thms)

theorem pureMeet_commutative_idempotent_witness:
  "isLatticeState (PhiState_of_base (Some (1::nat))) \<and>
   isLatticeState (PhiState_default :: nat PhiState) \<and>
   pureMeet (PhiState_of_base (Some (1::nat))) PhiState_default =
     pureMeet PhiState_default (PhiState_of_base (Some 1)) \<and>
   pureMeet (PhiState_of_base (Some (1::nat))) (PhiState_of_base (Some 1)) =
     Inr (PhiState_of_base (Some 1))"
proof -
  have h1: "isLatticeState (PhiState_of_base (Some (1::nat)))"
    by (simp add: isLatticeState_def PhiState_of_base_def)
  have h2: "isLatticeState (PhiState_default :: nat PhiState)"
    by (simp add: isLatticeState_def PhiState_default_def)
  show ?thesis
    using h1 h2 pureMeet_commutative_idempotent [OF h1 h2] by simp
qed

subsection \<open>Call-site selection\<close>

lemma needsStatepoint_iff:
  "((isCallInst I \<or> isInvokeInst I) \<and> needsStatepoint I) = selectedAsParsePoint I"
proof (cases "opcode I")
  case (Call c)
  then show ?thesis
    by (cases c; cases "calleeIntrinsic c")
       (auto simp: needsStatepoint_def isGCLeafFunction_def asIntrinsicInst_def isCallInst_def
          isInvokeInst_def isInlineAsm_def isStatepoint_def isGCRelocate_def isGCResult_def
          getCalledFunction_def getCallee_def selectedAsParsePoint_def annotatedLeaf_def
          calleeIntrinsic_def split: Intrinsic.splits)
next
  case (Invoke c)
  then show ?thesis
    by (cases c)
       (auto simp: needsStatepoint_def isGCLeafFunction_def asIntrinsicInst_def isCallInst_def
          isInvokeInst_def isInlineAsm_def isStatepoint_def isGCRelocate_def isGCResult_def
          getCalledFunction_def getCallee_def selectedAsParsePoint_def annotatedLeaf_def
          calleeIntrinsic_def)
qed (auto simp: isCallInst_def isInvokeInst_def selectedAsParsePoint_def)

lemma findCallSafepoints_eq:
  "findCallSafepoints opts F = Inr Found \<Longrightarrow>
   Found = (if shouldRun opts F ''gc-add-call-safepoints'' = Inr True
            then filter selectedAsParsePoint (instructions F) else [])"
  by (auto simp: findCallSafepoints_def needsStatepoint_iff split: sum.splits bool.splits)

lemma findCallSafepoints_skips:
  "findCallSafepoints opts F = Inr Found \<Longrightarrow> cs \<in> set Found \<Longrightarrow>
   \<not> isInlineAsm cs \<and> \<not> isStatepoint cs \<and> \<not> isGCRelocate cs \<and> \<not> isGCResult cs \<and>
   \<not> isGCLeafFunction cs"
  by (auto simp: findCallSafepoints_def needsStatepoint_def isInlineAsm_def isCallInst_def
        split: sum.splits bool.splits if_splits)

text \<open>
  C6, as the code has it.  When selection runs, the selected sites are exactly the calls
  and invokes of the function that satisfy the rule \<open>selectedAsParsePoint\<close>, in the
  order of the instructions: no selected site is an inline-assembly call, a statepoint,
  relocate or result intrinsic, or a GC leaf (an intrinsic call other than memset, memmove
  and memcpy, or a callee annotated \<^verbatim>\<open>gc-leaf-function\<close>).  Invokes are not skipped.
\<close>

theorem findCallSafepoints_selection:
  "findCallSafepoints opts F = Inr Found \<Longrightarrow>
   Found = (if shouldRun opts F ''gc-add-call-safepoints'' = Inr True
            then filter selectedAsParsePoint (instructions F) else []) \<and>
   (\<forall>cs \<in> set Found.
      \<not> isInlineAsm cs \<and> \<not> isStatepoint cs \<and> \<not> isGCRelocate cs \<and> \<not> isGCResult cs \<and>
      \<not> isGCLeafFunction cs)"
  using findCallSafepoints_eq findCallSafepoints_skips by blast

lemma ex_calls_found:
  "findCallSafepoints ex_options (ex_callFunction (ex_invoke # ex_calls)) =
     Inr [ex_invoke, ex_calls ! 0, ex_calls ! 2, ex_calls ! 7]"
  by (simp add: findCallSafepoints_def shouldRun_def getFnAttribute_def ex_options_def
        ex_callFunction_def instructions_def ex_invoke_def ex_calls_def ex_inst_def ex_decl_def
        needsStatepoint_def isGCLeafFunction_def asIntrinsicInst_def isCallInst_def
          isInvokeInst_def isInlineAsm_def isStatepoint_def isGCRelocate_def isGCResult_def
          getCalledFunction_def getCallee_def)

theorem findCallSafepoints_selection_witness:
  "findCallSafepoints ex_options (ex_callFunction (ex_invoke # ex_calls)) =
     Inr [ex_invoke, ex_calls ! 0, ex_calls ! 2, ex_calls ! 7] \<and>
   [ex_invoke, ex_calls ! 0, ex_calls ! 2, ex_calls ! 7] =
     filter selectedAsParsePoint (instructions (ex_callFunction (ex_invoke # ex_calls))) \<and>
   \<not> isGCLeafFunction (ex_calls ! 2)"
proof -
  have run: "shouldRun ex_options (ex_callFunction (ex_invoke # ex_calls))
               ''gc-add-call-safepoints'' = Inr True"
    by (simp add: shouldRun_def getFnAttribute_def ex_options_def ex_callFunction_def)
  show ?thesis
    using findCallSafepoints_selection [OF ex_calls_found] ex_calls_found run by simp
qed

text \<open>
  The claim as stated fails: with \<^verbatim>\<open>gc-add-call-safepoints\<close> set, an invoke of an
  ordinary function is selected.
\<close>

theorem findCallSafepoints_invoke_counterexample:
  "findCallSafepoints ex_options (ex_callFunction [ex_invoke]) = Inr [ex_invoke] \<and>
   isInvokeInst ex_invoke"
  by (simp add: findCallSafepoints_def shouldRun_def getFnAttribute_def ex_options_def
        ex_callFunction_def instructions_def ex_invoke_def ex_inst_def ex_decl_def
        needsStatepoint_def isGCLeafFunction_def asIntrinsicInst_def isCallInst_def
          isInvokeInst_def isInlineAsm_def isStatepoint_def isGCRelocate_def isGCResult_def
          getCalledFunction_def getCallee_def)

text \<open>
  \<^verbatim>\<open>insertParsePoints\<close> completes only on calls: the loop that puts the holder of
  the bases after every site asserts that the site is a call.
\<close>

lemma createRecords_sites:
  "createRecords analyze st toUpdate = Inr (st', sites) \<Longrightarrow> map fst sites = toUpdate"
proof (induction toUpdate arbitrary: st st' sites)
  case Nil
  then show ?case by simp
next
  case (Cons CS toUpdate)
  from Cons.prems obtain st1 info st2 sites1 where
    "createRecords analyze st1 toUpdate = Inr (st2, sites1)" "sites = (CS, info) # sites1"
    by (auto simp: bindE_def split: sum.splits prod.splits)
  with Cons.IH show ?case by auto
qed

lemma forEachSite_sites:
  "forEachSite step st sites = Inr (st', sites') \<Longrightarrow> map fst sites' = map fst sites"
proof (induction sites arbitrary: st st' sites')
  case Nil
  then show ?case by simp
next
  case (Cons site sites)
  from Cons.prems obtain st1 info st2 sites1 where
    "forEachSite step st1 sites = Inr (st2, sites1)" "sites' = (fst site, info) # sites1"
    by (auto simp: bindE_def split: sum.splits prod.splits)
  with Cons.IH show ?case by auto
qed

lemma holdBasesOfCall_Inr: "holdBasesOfCall col st site = Inr x \<Longrightarrow> isCallInst (fst site)"
  by (simp add: holdBasesOfCall_def split: if_splits)

lemma forEachSite_holdBasesOfCall:
  "forEachSite (holdBasesOfCall col) st sites = Inr (st', sites') \<Longrightarrow>
   list_all isCallInst (map fst sites)"
proof (induction sites arbitrary: st st' sites')
  case Nil
  then show ?case by simp
next
  case (Cons site sites)
  from Cons.prems obtain x st1 st2 sites1 where
    a: "holdBasesOfCall col st site = Inr x" and
    b: "forEachSite (holdBasesOfCall col) st1 sites = Inr (st2, sites1)"
    by (auto simp: bindE_def split: sum.splits prod.splits)
  from holdBasesOfCall_Inr [OF a] Cons.IH [OF b] show ?case by simp
qed

lemma bindE_InrE:
  assumes "bindE m f = Inr y"
  obtains x where "m = Inr x" and "f x = Inr y"
  using assms by (cases m) (simp_all add: bindE_def)

lemma insertParsePoints_calls:
  assumes "insertParsePoints col opts F toUpdate = Inr r"
  shows "list_all isCallInst toUpdate"
proof -
  from assms obtain st0 st sites st1 sites1 st2 sites2 where
    records: "createRecords (analyzeSite col) st0 toUpdate = Inr (st, sites)" and
    bases: "forEachSite (findBasePointers col) st sites = Inr (st1, sites1)" and
    holders: "forEachSite (holdBasesOfCall col) st1 sites1 = Inr (st2, sites2)"
    unfolding insertParsePoints_def
    by (auto split: if_splits elim!: bindE_InrE)
  from forEachSite_holdBasesOfCall [OF holders] have "list_all isCallInst (map fst sites1)" .
  then show ?thesis
    by (simp only: forEachSite_sites [OF bases] createRecords_sites [OF records])
qed

subsection \<open>Backedge polls\<close>

lemmas ex_cfg_defs = ex_loopFunction_def ex_br_def ex_inst_def ex_options_def ex_loop_def
  shouldRun_def getFnAttribute_def predecessors_def succ_blocks_def getTerminator_def
  isTerminator_def getBlock_def getUniqueSuccessor_def getUniquePredecessor_def
  uniqueElement_def terminatorOf_def


lemma runOnLoop_preds_finite:
  "\<not> AllBackedges opts \<Longrightarrow> mustBeFiniteCountedLoop L SE \<Longrightarrow>
   runOnLoop_preds opts SE L preds acc = acc"
  by (induction preds) (cases acc; simp)+


text \<open>
  C4.  When \<^verbatim>\<open>AllBackedges\<close> is false and the trip count through the latch of the
  loop is a positive constant, \<^verbatim>\<open>runOnLoop\<close> adds no poll location for any backedge
  of the loop and reports no modification.
\<close>

theorem runOnLoop_finite_loop:
  assumes "\<not> AllBackedges opts"
      and "getLoopLatch L = Some LatchBlock"
      and "0 < SE L LatchBlock"
      and "runOnLoop opts SE F L PollLocations = Inr r"
  shows "r = (False, PollLocations)"
proof -
  have "mustBeFiniteCountedLoop L SE"
    using assms(2,3) by (simp add: mustBeFiniteCountedLoop_def)
  then show ?thesis
    using assms(1,4) by (auto simp: runOnLoop_def runOnLoop_preds_finite split: sum.splits bool.splits)
qed

text \<open>With a trip count of zero the same loop gets its backedge recorded.\<close>

lemma ex_backedge_recorded:
  "runOnLoop ex_options (\<lambda>L b. 0) ex_loopFunction ex_loop [] = Inr (True, [Some (ex_br 104 [3, 5])])"
  by (simp add: runOnLoop_def mustBeFiniteCountedLoop_def contains_def ex_cfg_defs)

theorem runOnLoop_finite_loop_witness:
  "\<not> AllBackedges ex_options \<and> getLoopLatch ex_loop = Some 4 \<and>
   runOnLoop ex_options (\<lambda>L b. 5) ex_loopFunction ex_loop [] = Inr (False, [])"
proof -
  have a: "\<not> AllBackedges ex_options" by (simp add: ex_options_def)
  have b: "getLoopLatch ex_loop = Some 4" by (simp add: ex_loop_def)
  have c: "0 < (\<lambda>L b. 5::nat) ex_loop 4" by simp
  obtain r where r: "runOnLoop ex_options (\<lambda>L b. 5) ex_loopFunction ex_loop [] = Inr r"
    by (simp add: runOnLoop_def ex_cfg_defs)
  from runOnLoop_finite_loop [OF a b c r] r a b show ?thesis by simp
qed

subsection \<open>The entry poll\<close>

lemma uniqueElement_Some:
  "uniqueElement xs = Some x \<Longrightarrow> x \<in> set xs \<and> (\<forall>y \<in> set xs. y = x)"
  by (cases xs) (auto simp: uniqueElement_def list_all_iff split: if_splits)

lemma getBlock_Some: "getBlock F b = Some BB \<Longrightarrow> BB \<in> set (blocks F) \<and> bb_id BB = b"
  by (auto simp: getBlock_def find_Some_iff)

lemma chainStep_is_pred:
  assumes "chainStep F x y"
  shows "x \<in> set (map bb_id (predecessors F y))"
proof -
  from assms obtain BB where BB: "getBlock F x = Some BB" "uniqueElement (succ_blocks BB) = Some y"
    by (auto simp: chainStep_def getUniqueSuccessor_def split: option.splits)
  from BB(1) have "BB \<in> set (blocks F)" "bb_id BB = x"
    using getBlock_Some by auto
  moreover from BB(2) have "y \<in> set (succ_blocks BB)"
    using uniqueElement_Some by blast
  ultimately show ?thesis
    by (force simp: predecessors_def)
qed

lemma chainStep_pred_unique:
  assumes "chainStep F x y" and "chainStep F x' y"
  shows "x = x'"
proof -
  from assms(1) obtain p where p: "getUniquePredecessor F y = Some p"
    by (auto simp: chainStep_def)
  then have "\<forall>q \<in> set (map bb_id (predecessors F y)). q = p"
    using uniqueElement_Some unfolding getUniquePredecessor_def by blast
  then have "x = p" "x' = p"
    using chainStep_is_pred [OF assms(1)] chainStep_is_pred [OF assms(2)] by auto
  then show ?thesis by simp
qed

lemma chainStep_fun: "chainStep F x y \<Longrightarrow> chainStep F x y' \<Longrightarrow> y = y'"
  by (simp add: chainStep_def)

lemma chainStep_in_succs:
  assumes "chainStep F x y"
  shows "y \<in> set (concat (map succ_blocks (blocks F)))"
proof -
  from assms obtain BB where BB: "getBlock F x = Some BB" "uniqueElement (succ_blocks BB) = Some y"
    by (auto simp: chainStep_def getUniqueSuccessor_def split: option.splits)
  then show ?thesis
    using getBlock_Some uniqueElement_Some by fastforce
qed

lemma no_step_into_entry:
  "predecessors F e = [] \<Longrightarrow> \<not> chainStep F x e"
  by (simp add: chainStep_def getUniquePredecessor_def uniqueElement_def)

lemma chain_distance_unique:
  assumes noin: "\<And>x. \<not> chainStep F x e"
  shows "(chainStep F ^^ k) e b \<Longrightarrow> (chainStep F ^^ m) e b \<Longrightarrow> k = m"
proof (induction k arbitrary: m b)
  case 0
  then have "b = e" by simp
  with 0 noin show ?case by (cases m) auto
next
  case (Suc k)
  from Suc.prems(1) obtain c where c: "(chainStep F ^^ k) e c" "chainStep F c b" by auto
  show ?case
  proof (cases m)
    case 0
    with Suc.prems(2) have "b = e" by simp
    with c(2) noin show ?thesis by blast
  next
    case (Suc m')
    with Suc.prems(2) obtain c' where c': "(chainStep F ^^ m') e c'" "chainStep F c' b" by auto
    from c(2) c'(2) have "c = c'" by (rule chainStep_pred_unique)
    with Suc.IH [OF c(1)] c'(1) have "k = m'" by blast
    with Suc show ?thesis by simp
  qed
qed

lemma chain_bounded:
  assumes noin: "\<And>x. \<not> chainStep F x e"
      and all: "\<forall>k \<le> N. \<exists>b. (chainStep F ^^ k) e b"
  shows "N \<le> length (concat (map succ_blocks (blocks F)))"
proof -
  let ?S = "set (concat (map succ_blocks (blocks F)))"
  define f where "f k = (SOME b. (chainStep F ^^ k) e b)" for k
  have f: "(chainStep F ^^ k) e (f k)" if "k \<le> N" for k
    unfolding f_def using all that by (auto intro: someI_ex)
  have inj: "inj_on f {1..N}"
  proof (rule inj_onI)
    fix i j assume "i \<in> {1..N}" "j \<in> {1..N}" "f i = f j"
    then show "i = j"
      using chain_distance_unique [OF noin, of i "f i" j] f [of i] f [of j] by simp
  qed
  have sub: "f ` {1..N} \<subseteq> ?S"
  proof
    fix b assume "b \<in> f ` {1..N}"
    then obtain k where k: "1 \<le> k" "k \<le> N" "b = f k" by auto
    then obtain k' where "k = Suc k'" by (cases k) auto
    with f [OF k(2)] k(3) obtain c where "chainStep F c b" by auto
    then show "b \<in> ?S" by (rule chainStep_in_succs)
  qed
  have "N = card (f ` {1..N})"
    using inj by (simp add: card_image)
  also have "\<dots> \<le> card ?S"
    using sub by (simp add: card_mono)
  also have "\<dots> \<le> length (concat (map succ_blocks (blocks F)))"
    by (rule card_length)
  finally show ?thesis .
qed

lemma chain_reaches_stop:
  assumes noin: "\<And>x. \<not> chainStep F x e"
  shows "\<exists>b. (chainStep F)\<^sup>*\<^sup>* e b \<and> (\<forall>y. \<not> chainStep F b y)"
proof (rule ccontr)
  assume neg: "\<not> ?thesis"
  have ext: "\<exists>b. (chainStep F ^^ k) e b" for k
  proof (induction k)
    case 0
    show ?case by auto
  next
    case (Suc k)
    then obtain b where b: "(chainStep F ^^ k) e b" by blast
    then have "(chainStep F)\<^sup>*\<^sup>* e b"
      by (auto simp: rtranclp_power)
    with neg obtain y where "chainStep F b y" by blast
    with b show ?case by auto
  qed
  then have "\<forall>k \<le> Suc (length (concat (map succ_blocks (blocks F)))). \<exists>b. (chainStep F ^^ k) e b"
    by blast
  from chain_bounded [OF noin this] show False by simp
qed

lemma entryWalk_step: "chainStep F x y \<Longrightarrow> entryWalk F x = entryWalk F y"
  by (subst entryWalk.simps) (auto simp: chainStep_def split: option.splits)

lemma entryWalk_stop: "\<forall>y. \<not> chainStep F b y \<Longrightarrow> entryWalk F b = Some b"
  by (subst entryWalk.simps) (auto simp: chainStep_def split: option.splits)

lemma entryWalk_chain:
  "(chainStep F)\<^sup>*\<^sup>* e b \<Longrightarrow> \<forall>y. \<not> chainStep F b y \<Longrightarrow> entryWalk F e = Some b"
  by (induction rule: converse_rtranclp_induct) (auto simp: entryWalk_stop entryWalk_step)


text \<open>
  C5.  When the entry selector runs on a function whose entry block has no predecessor,
  the walk ends, at a block \<open>b\<close> reached from the entry block by steps that each go from
  a block to its unique successor, that successor having a unique predecessor; no such
  step leaves \<open>b\<close> (it has no unique successor, or its successor has no unique
  predecessor); and the location returned is the terminator of \<open>b\<close>.
\<close>

theorem findLocationForEntrySafepoint_walk:
  assumes run: "shouldRun opts F ''gc-add-entry-safepoints'' = Inr True"
      and entry: "blocks F = entry # rest"
      and nopred: "predecessors F (bb_id entry) = []"
  shows "\<exists>b. findLocationForEntrySafepoint opts F = Some (Inr (terminatorOf F b)) \<and>
             (chainStep F)\<^sup>*\<^sup>* (bb_id entry) b \<and> (\<forall>y. \<not> chainStep F b y)"
proof -
  have "\<And>x. \<not> chainStep F x (bb_id entry)"
    using nopred by (rule no_step_into_entry)
  from chain_reaches_stop [OF this] obtain b
    where b: "(chainStep F)\<^sup>*\<^sup>* (bb_id entry) b" "\<forall>y. \<not> chainStep F b y" by blast
  then have "entryWalk F (bb_id entry) = Some b" by (rule entryWalk_chain)
  then have "findLocationForEntrySafepoint opts F = Some (Inr (terminatorOf F b))"
    by (simp add: findLocationForEntrySafepoint_def run entry)
  with b show ?thesis by blast
qed


lemma ex_entry_location:
  "findLocationForEntrySafepoint ex_options ex_loopFunction = Some (Inr (Some (ex_br 102 [3])))"
  by (simp add: findLocationForEntrySafepoint_def entryWalk.simps ex_cfg_defs)

theorem findLocationForEntrySafepoint_walk_witness:
  "shouldRun ex_options ex_loopFunction ''gc-add-entry-safepoints'' = Inr True \<and>
   predecessors ex_loopFunction 0 = [] \<and>
   findLocationForEntrySafepoint ex_options ex_loopFunction = Some (Inr (Some (ex_br 102 [3]))) \<and>
   (\<exists>b. findLocationForEntrySafepoint ex_options ex_loopFunction =
           Some (Inr (terminatorOf ex_loopFunction b)) \<and>
        (chainStep ex_loopFunction)\<^sup>*\<^sup>* 0 b \<and> (\<forall>y. \<not> chainStep ex_loopFunction b y))"
proof -
  have run: "shouldRun ex_options ex_loopFunction ''gc-add-entry-safepoints'' = Inr True"
    by (simp add: ex_cfg_defs)
  have entry: "blocks ex_loopFunction =
      \<lparr>bb_id = 0, insts = [ex_br 100 [1]]\<rparr> # tl (blocks ex_loopFunction)"
    by (simp add: ex_loopFunction_def)
  have nopred: "predecessors ex_loopFunction (bb_id \<lparr>bb_id = 0, insts = [ex_br 100 [1]]\<rparr>) = []"
    by (simp add: ex_cfg_defs)
  from nopred have nopred0: "predecessors ex_loopFunction 0 = []" by simp
  show ?thesis
    using findLocationForEntrySafepoint_walk [OF run entry nopred] run nopred0 ex_entry_location
    by simp
qed


subsection \<open>The operands of gc_relocate\<close>

lemma find_first_Some:
  "find_first xs v = Some i \<Longrightarrow> i < length xs \<and> xs ! i = v \<and> v \<notin> set (take i xs)"
proof (induction xs arbitrary: i)
  case Nil
  then show ?case by simp
next
  case (Cons x xs)
  show ?case
  proof (cases "x = v")
    case True
    with Cons.prems show ?thesis by simp
  next
    case False
    with Cons.prems obtain j where j: "find_first xs v = Some j" "i = Suc j" by auto
    with Cons.IH [OF j(1)] False show ?thesis by auto
  qed
qed

lemma find_first_mem: "v \<in> set xs \<Longrightarrow> \<exists>i. find_first xs v = Some i"
  by (induction xs) auto

lemma find_index_Inr:
  "find_index xs v = Inr i \<Longrightarrow> i < length xs \<and> xs ! i = v \<and> v \<notin> set (take i xs)"
  using find_first_Some [of xs v i] by (auto simp: find_index_def split: option.splits)

lemma gc_relocates_length:
  "gc_relocates start live ps = Inr relocs \<Longrightarrow> length relocs = length ps"
  by (induction ps arbitrary: relocs) (auto split: sum.splits)

lemma gc_relocates_nth:
  "gc_relocates start live ps = Inr relocs \<Longrightarrow> i < length ps \<Longrightarrow>
   \<exists>baseIndex derivedIndex.
     find_index live (fst (ps ! i)) = Inr baseIndex \<and>
     find_index live (snd (ps ! i)) = Inr derivedIndex \<and>
     relocs ! i = [SafepointToken, i32 (int (start + baseIndex)), i32 (int (start + derivedIndex))]"
proof (induction ps arbitrary: relocs i)
  case Nil
  then show ?case by simp
next
  case (Cons p ps)
  obtain b l where p: "p = (b, l)" by (cases p)
  from Cons.prems(1) p obtain bi di rs where
    parts: "find_index live b = Inr bi" "find_index live l = Inr di"
      "gc_relocates start live ps = Inr rs"
      "relocs = [SafepointToken, i32 (int (start + bi)), i32 (int (start + di))] # rs"
    by (auto split: sum.splits)
  show ?case
  proof (cases i)
    case 0
    with parts p show ?thesis by simp
  next
    case (Suc j)
    with Cons.prems(2) have "j < length ps" by simp
    from Cons.IH [OF parts(3) this] Suc parts(4) show ?thesis by simp
  qed
qed

lemma CreateSafepoint_parts:
  assumes "CreateSafepoint isJVMState F CS jvm basePtrs liveVariables = Inr code"
  shows "length basePtrs = length liveVariables"
    and "gc_relocates (live_start code) liveVariables (zip basePtrs liveVariables) =
           Inr (gc_relocate_args code)"
    and "length (statepoint_args code) = live_start code + length liveVariables"
    and "drop (live_start code) (statepoint_args code) = map Val liveVariables"
    and "8 \<le> live_start code"
  using assms
  by (auto simp: CreateSafepoint_def Let_def split: if_splits option.splits sum.splits)

text \<open>
  C7, as the code has it.  The \<open>i\<close>-th \<^verbatim>\<open>gc_relocate\<close> has exactly the three
  operands (token, \<open>live_start + baseIndex\<close>, \<open>live_start + derivedIndex\<close>), where
  \<open>baseIndex\<close> and \<open>derivedIndex\<close> are the positions of the base of the \<open>i\<close>-th live
  value and of that value among the live values, counted from the first, and
  \<open>live_start\<close> is the number of statepoint operands before the first live value (at
  least 8).  So the two indices are positions in the whole operand list of the
  statepoint: the operands found there are the base and the live value.
\<close>

theorem CreateSafepoint_relocate_operands:
  assumes ok: "CreateSafepoint isJVMState F CS jvm basePtrs liveVariables = Inr code"
      and i: "i < length liveVariables"
  shows "\<exists>baseIndex derivedIndex.
     gc_relocate_args code ! i =
       [SafepointToken, i32 (int (live_start code + baseIndex)),
        i32 (int (live_start code + derivedIndex))] \<and>
     find_index liveVariables (basePtrs ! i) = Inr baseIndex \<and>
     find_index liveVariables (liveVariables ! i) = Inr derivedIndex \<and>
     statepoint_args code ! (live_start code + baseIndex) = Val (basePtrs ! i) \<and>
     statepoint_args code ! (live_start code + derivedIndex) = Val (liveVariables ! i) \<and>
     length (gc_relocate_args code) = length liveVariables \<and>
     drop (live_start code) (statepoint_args code) = map Val liveVariables \<and>
     8 \<le> live_start code"
proof -
  note parts = CreateSafepoint_parts [OF ok]
  have len: "i < length (zip basePtrs liveVariables)"
    using i parts(1) by simp
  from gc_relocates_nth [OF parts(2) len] obtain bi di where
    idx: "find_index liveVariables (basePtrs ! i) = Inr bi"
         "find_index liveVariables (liveVariables ! i) = Inr di"
         "gc_relocate_args code ! i =
            [SafepointToken, i32 (int (live_start code + bi)), i32 (int (live_start code + di))]"
    using i parts(1) by auto
  have at: "statepoint_args code ! (live_start code + k) = Val (liveVariables ! k)"
    if "k < length liveVariables" for k
  proof -
    have "statepoint_args code ! (live_start code + k) =
          drop (live_start code) (statepoint_args code) ! k"
      using parts(3) that by simp
    then show ?thesis
      using parts(4) that by simp
  qed
  from find_index_Inr [OF idx(1)] have b: "bi < length liveVariables" "liveVariables ! bi = basePtrs ! i"
    by auto
  from find_index_Inr [OF idx(2)] have d: "di < length liveVariables" "liveVariables ! di = liveVariables ! i"
    by auto
  have "length (gc_relocate_args code) = length liveVariables"
    using gc_relocates_length [OF parts(2)] parts(1) by simp
  with idx at [OF b(1)] at [OF d(1)] b(2) d(2) parts(4,5) show ?thesis
    by auto
qed

lemma ex_CreateSafepoint:
  "CreateSafepoint (\<lambda>v. False) ex_siteFunction ex_site None [ex_obj, ex_obj] [ex_obj, ex_derived] =
     Inr \<lparr>statepoint_args =
            [CalledValue (CalledFunction (ex_decl ''foo'' not_intrinsic [])),
             i32 0, i32 0, i32 0, i32 (- 1), i32 0, i32 0, i32 0, Val ex_obj, Val ex_derived],
          live_start = 8,
          gc_result_args = None,
          gc_relocate_args = [[SafepointToken, i32 8, i32 8], [SafepointToken, i32 8, i32 9]]\<rparr>"
  by (simp add: CreateSafepoint_def isCallSiteHoldingVMState_def getCallee_def ex_site_def
        ex_inst_def find_index_def ex_obj_def ex_derived_def getParent_def ex_siteFunction_def
        VerifySafepointBounds_def isCallInst_def)

theorem CreateSafepoint_relocate_operands_witness:
  "(1::nat) < length [ex_obj, ex_derived] \<and>
   (\<exists>baseIndex derivedIndex.
     [SafepointToken, i32 8, i32 9] =
       [SafepointToken, i32 (int (8 + baseIndex)), i32 (int (8 + derivedIndex))] \<and>
     find_index [ex_obj, ex_derived] ex_obj = Inr baseIndex \<and>
     find_index [ex_obj, ex_derived] ex_derived = Inr derivedIndex)"
proof -
  have i: "(1::nat) < length [ex_obj, ex_derived]" by simp
  from CreateSafepoint_relocate_operands [OF ex_CreateSafepoint i] i show ?thesis
    by simp blast
qed

text \<open>
  The claim as stated fails: for a call without arguments and without VM state, with the
  live values \<open>obj\<close> and \<open>derived\<close> (both based on \<open>obj\<close>), the relocate of
  \<open>derived\<close> carries the indices 8 and 9, while the positions counted from the first
  live value are 0 and 1.
\<close>

theorem CreateSafepoint_relocate_counterexample:
  "CreateSafepoint (\<lambda>v. False) ex_siteFunction ex_site None [ex_obj, ex_obj] [ex_obj, ex_derived] =
     Inr \<lparr>statepoint_args =
            [CalledValue (CalledFunction (ex_decl ''foo'' not_intrinsic [])),
             i32 0, i32 0, i32 0, i32 (- 1), i32 0, i32 0, i32 0, Val ex_obj, Val ex_derived],
          live_start = 8,
          gc_result_args = None,
          gc_relocate_args = [[SafepointToken, i32 8, i32 8], [SafepointToken, i32 8, i32 9]]\<rparr> \<and>
   find_index [ex_obj, ex_derived] ex_obj = Inr 0 \<and>
   find_index [ex_obj, ex_derived] ex_derived = Inr 1 \<and>
   [SafepointToken, i32 8, i32 9] \<noteq> [SafepointToken, i32 0, i32 1]"
  by (simp add: CreateSafepoint_def isCallSiteHoldingVMState_def getCallee_def ex_site_def
        ex_inst_def find_index_def ex_obj_def ex_derived_def i32_def getParent_def
        ex_siteFunction_def VerifySafepointBounds_def isCallInst_def)

text \<open>
  An invoke gets through \<^verbatim>\<open>VerifySafepointBounds\<close> only when nothing follows the
  statepoint: with a \<^verbatim>\<open>gc_relocate\<close> or a \<^verbatim>\<open>gc_result\<close> in the new normal
  destination, the terminator of the block of the statepoint is still the replaced
  invoke, whose normal destination is the old one.
\<close>

lemma VerifySafepointBounds_new_block:
  "VerifySafepointBounds F (BlockOfFunction b, InvokeSafepointNormalDest) = Inl AssertionFailed"
  by (simp add: VerifySafepointBounds_def split: option.splits)

lemma CreateSafepoint_invoke:
  assumes ok: "CreateSafepoint isJVMState F CS jvm basePtrs liveVariables = Inr code"
      and invoke: "\<not> isCallInst CS"
  shows "gc_relocate_args code = [] \<and> gc_result_args code = None"
  using ok invoke
  by (auto simp: CreateSafepoint_def Let_def VerifySafepointBounds_new_block
        split: if_splits option.splits sum.splits)

subsection \<open>Liveness of GC pointers by dataflow\<close>

lemma addUse_subset:
  "S \<subseteq> gcOperands F \<Longrightarrow> I \<in> set (instructions F) \<Longrightarrow> V \<in> set (getOperands I) \<Longrightarrow>
   addUse S V \<subseteq> gcOperands F"
  by (auto simp: addUse_def gcOperands_def)

lemma foldl_addUse_subset:
  "S \<subseteq> gcOperands F \<Longrightarrow> I \<in> set (instructions F) \<Longrightarrow> set Vs \<subseteq> set (getOperands I) \<Longrightarrow>
   foldl addUse S Vs \<subseteq> gcOperands F"
proof (induction Vs arbitrary: S)
  case Nil
  then show ?case by simp
next
  case (Cons V Vs)
  have "addUse S V \<subseteq> gcOperands F"
    using Cons.prems by (intro addUse_subset [of S F I V]) auto
  then show ?case
    using Cons.IH [of "addUse S V"] Cons.prems by simp
qed

lemma range_subset:
  "S \<subseteq> gcOperands F \<Longrightarrow> set ritr \<subseteq> set (instructions F) \<Longrightarrow>
   computeGCPtrLiveness_range ritr S \<subseteq> gcOperands F"
proof (induction ritr arbitrary: S)
  case Nil
  then show ?case by simp
next
  case (Cons I ritr)
  have "S - {valueOf I} \<subseteq> gcOperands F"
    using Cons.prems(1) by auto
  then have "foldl addUse (S - {valueOf I}) (getOperands I) \<subseteq> gcOperands F"
    using Cons.prems(2) by (intro foldl_addUse_subset [of _ F I]) auto
  then show ?case
    using Cons.IH Cons.prems(2) by simp
qed

lemma insts_subset_instructions:
  "BB \<in> set (blocks F) \<Longrightarrow> set (insts BB) \<subseteq> set (instructions F)"
  by (auto simp: instructions_def)

lemma predecessors_subset_blocks: "set (predecessors F b) \<subseteq> set (blocks F)"
  by (auto simp: predecessors_def)

lemma unionLiveIn_subset:
  "unionLiveIn LI succs acc = Inr S \<Longrightarrow> acc \<subseteq> G \<Longrightarrow>
   (\<And>b S'. LI b = Some S' \<Longrightarrow> S' \<subseteq> G) \<Longrightarrow> S \<subseteq> G"
proof (induction succs arbitrary: acc)
  case Nil
  then show ?case by simp
next
  case (Cons b succs)
  from Cons.prems(1) obtain S' where S': "LI b = Some S'" "unionLiveIn LI succs (acc \<union> S') = Inr S"
    by (auto split: option.splits)
  have "acc \<union> S' \<subseteq> G"
    using Cons.prems(2) Cons.prems(3) [OF S'(1)] by simp
  from Cons.IH [OF S'(2) this] Cons.prems(3) show ?case by blast
qed

lemma cleanData_update_LiveOut:
  "cleanData F Data \<Longrightarrow> S \<subseteq> gcOperands F \<Longrightarrow>
   cleanData F (Data\<lparr>LiveOut := (LiveOut Data)(b \<mapsto> S)\<rparr>)"
  by (auto simp: cleanData_def)

lemma cleanData_update_LiveIn:
  "cleanData F Data \<Longrightarrow> S \<subseteq> gcOperands F \<Longrightarrow>
   cleanData F (Data\<lparr>LiveIn := (LiveIn Data)(b \<mapsto> S)\<rparr>)"
  by (auto simp: cleanData_def)

lemma worklist_invariant_aux:
  assumes "computeGCPtrLiveness_worklist F worklist Data = Some r"
  shows "cleanData F Data \<and> set worklist \<subseteq> set (blocks F) \<longrightarrow>
         (\<forall>D. r = Inr D \<longrightarrow> cleanData F D)"
proof (rule computeGCPtrLiveness_worklist.raw_induct
    [where P = "\<lambda>F worklist Data r. cleanData F Data \<and> set worklist \<subseteq> set (blocks F) \<longrightarrow>
                 (\<forall>D. r = Inr D \<longrightarrow> cleanData F D)", OF _ assms], goal_cases)
  case (1 loop F worklist Data r)
  note IH = 1(1) and eq = 1(2)
  show ?case
  proof (intro impI allI, elim conjE)
    fix D
    assume clean: "cleanData F Data" and sub: "set worklist \<subseteq> set (blocks F)"
      and res: "r = Inr D"
    show "cleanData F D"
    proof (cases worklist)
      case Nil
      with eq clean res show ?thesis by simp
    next
      case (Cons BB rest)
      have BB: "BB \<in> set (blocks F)" and rest: "set rest \<subseteq> set (blocks F)"
        using sub Cons by auto
      from eq Cons res obtain LiveOut' where
        lo: "unionLiveIn (LiveIn Data) (succ_blocks BB) {} = Inr LiveOut'"
        by (cases "unionLiveIn (LiveIn Data) (succ_blocks BB) {}") auto
      have lo_sub: "LiveOut' \<subseteq> gcOperands F"
        using unionLiveIn_subset [OF lo, of "gcOperands F"] clean
        by (auto simp: cleanData_def)
      show ?thesis
      proof (cases "LiveOut' \<noteq> {} \<and> LiveOut Data (bb_id BB) = Some LiveOut'")
        case True
        with eq Cons lo have "loop F rest Data = Some r"
          by simp
        from IH [OF this] clean rest res show ?thesis by blast
      next
        case False
        with eq Cons lo res obtain OldLiveIn where
          old: "LiveIn Data (bb_id BB) = Some OldLiveIn"
          by (cases "LiveIn Data (bb_id BB)") auto
        define Data1 where "Data1 = Data\<lparr>LiveOut := (LiveOut Data)(bb_id BB \<mapsto> LiveOut')\<rparr>"
        define LiveTmp where "LiveTmp = computeGCPtrLiveness_range (rev (insts BB)) LiveOut'"
        have c1: "cleanData F Data1"
          unfolding Data1_def using clean lo_sub by (rule cleanData_update_LiveOut)
        have tmp_sub: "LiveTmp \<subseteq> gcOperands F"
          unfolding LiveTmp_def using lo_sub insts_subset_instructions [OF BB]
          by (intro range_subset) auto
        show ?thesis
        proof (cases "OldLiveIn \<noteq> LiveTmp")
          case True
          let ?wl = "(if LiveTmp \<noteq> {} then rev (predecessors F (bb_id BB)) else []) @ rest"
          let ?D2 = "Data1\<lparr>LiveIn := (LiveIn Data1)(bb_id BB \<mapsto> LiveTmp)\<rparr>"
          have run: "loop F ?wl ?D2 = Some r"
            using eq Cons lo False old True
            by (simp add: Data1_def LiveTmp_def Let_def)
          have c2: "cleanData F ?D2"
            using c1 tmp_sub by (rule cleanData_update_LiveIn)
          have wl: "set ?wl \<subseteq> set (blocks F)"
            using rest predecessors_subset_blocks [of F "bb_id BB"] by auto
          from IH [OF run] c2 wl res show ?thesis by blast
        next
          case False': False
          have run: "loop F rest Data1 = Some r"
            using eq Cons lo False old False'
            by (simp add: Data1_def LiveTmp_def Let_def)
          from IH [OF run] c1 rest res show ?thesis by blast
        qed
      qed
    qed
  qed
qed

lemma worklist_invariant:
  "computeGCPtrLiveness_worklist F worklist Data = Some (Inr D) \<Longrightarrow>
   cleanData F Data \<Longrightarrow> set worklist \<subseteq> set (blocks F) \<Longrightarrow> cleanData F D"
  using worklist_invariant_aux by blast

lemma emptySets_clean: "emptySets F b = Some S \<Longrightarrow> S = {}"
  by (auto simp: emptySets_def dest!: map_of_SomeD)

lemma computeGCPtrLiveness_clean:
  "computeGCPtrLiveness F = Some (Inr Data) \<Longrightarrow> cleanData F Data"
  unfolding computeGCPtrLiveness_def
  by (erule worklist_invariant) (auto simp: cleanData_def dest: emptySets_clean)

lemma getParent_Some: "getParent F inst = Some BB \<Longrightarrow> BB \<in> set (blocks F) \<and> inst \<in> set (insts BB)"
  by (auto simp: getParent_def find_Some_iff)

lemma findLiveSetAtInst_subset:
  assumes "cleanData F Data" and "findLiveSetAtInst F inst Data {} = Inr live"
  shows "valueOf inst \<notin> live \<and> live \<subseteq> gcOperands F"
proof -
  from assms(2) obtain BB LiveOut' where
    BB: "getParent F inst = Some BB" and lo: "LiveOut Data (bb_id BB) = Some LiveOut'"
    and live: "live = computeGCPtrLiveness_range
                        (rev (dropWhile (\<lambda>I. I \<noteq> inst) (insts BB))) LiveOut' - {valueOf inst}"
    by (auto simp: findLiveSetAtInst_def Let_def split: option.splits)
  have "LiveOut' \<subseteq> gcOperands F"
    using assms(1) lo by (auto simp: cleanData_def)
  moreover have "set (rev (dropWhile (\<lambda>I. I \<noteq> inst) (insts BB))) \<subseteq> set (instructions F)"
    using getParent_Some [OF BB] insts_subset_instructions [of BB F] set_dropWhileD by fastforce
  ultimately have "computeGCPtrLiveness_range
      (rev (dropWhile (\<lambda>I. I \<noteq> inst) (insts BB))) LiveOut' \<subseteq> gcOperands F"
    by (rule range_subset)
  with live show ?thesis by auto
qed

text \<open>
  C8.  With the liveness data that \<^verbatim>\<open>computeGCPtrLiveness\<close> computes for the
  function, the live set that \<^verbatim>\<open>findLiveSetAtInst\<close> gives for the entry of an
  instruction does not contain the value that the instruction defines, and each of its
  members has GC-pointer type, is neither null nor undef, and is an operand of an
  instruction of the function.
\<close>

theorem findLiveSetAtInst_live_set:
  assumes "computeGCPtrLiveness F = Some (Inr Data)"
      and "findLiveSetAtInst F inst Data {} = Inr live"
  shows "valueOf inst \<notin> live \<and>
         (\<forall>V \<in> live. isGCPointerType (getType V) \<and> \<not> isNull V \<and> \<not> isUndefValue V \<and>
                      (\<exists>I \<in> set (instructions F). V \<in> set (getOperands I)))"
  using findLiveSetAtInst_subset [OF computeGCPtrLiveness_clean [OF assms(1)] assms(2)]
  by (auto simp: gcOperands_def)

lemmas ex_live_defs = ex_liveFunction_def ex_liveCall_def ex_inst_def ex_br_def ex_decl_def
  ex_p_def ex_q_def ex_obj_def emptySets_def succ_blocks_def getTerminator_def isTerminator_def
  predecessors_def getOperands_def addUse_def valueOf_def isGCPointerType_def insert_Diff_if

lemma ex_liveness:
  "computeGCPtrLiveness ex_liveFunction = Some (Inr ex_liveData)"
  unfolding computeGCPtrLiveness_def ex_liveData_def
  apply (subst computeGCPtrLiveness_worklist.simps)
  apply (simp add: ex_live_defs)
  apply (subst computeGCPtrLiveness_worklist.simps)
  apply (simp add: ex_live_defs)
  apply (subst computeGCPtrLiveness_worklist.simps)
  apply (simp add: ex_live_defs)
  apply (subst computeGCPtrLiveness_worklist.simps)
  apply (simp add: ex_live_defs)
  done

lemma ex_liveSet:
  "findLiveSetAtInst ex_liveFunction ex_liveCall ex_liveData {} = Inr {ex_p, ex_obj}"
  by (simp add: findLiveSetAtInst_def getParent_def ex_liveData_def ex_live_defs)

theorem findLiveSetAtInst_live_set_witness:
  "computeGCPtrLiveness ex_liveFunction = Some (Inr ex_liveData) \<and>
   findLiveSetAtInst ex_liveFunction ex_liveCall ex_liveData {} = Inr {ex_p, ex_obj} \<and>
   valueOf ex_liveCall \<notin> {ex_p, ex_obj} \<and>
   isGCPointerType (getType ex_p) \<and> \<not> isNull ex_p \<and> \<not> isUndefValue ex_p"
  using findLiveSetAtInst_live_set [OF ex_liveness ex_liveSet] ex_liveness ex_liveSet
  by simp

subsection \<open>The stack slots of relocationViaAlloca\<close>

text \<open>
  The stores and the loads that the phase inserts, and the rewriting of the uses, keep
  the allocas of the function.
\<close>

lemma countAllocas_allocaIds: "countAllocas F = length (allocaIds F)"
  by (simp add: countAllocas_def allocaIds_def)

lemma keepsAllocas_refl: "keepsAllocas F F"
  by (simp add: keepsAllocas_def)

lemma keepsAllocas_trans:
  "keepsAllocas F G \<Longrightarrow> keepsAllocas G H \<Longrightarrow> keepsAllocas F H"
  unfolding keepsAllocas_def by metis

lemma instructions_updateInsts:
  "instructions (updateInsts f F) = concat (map (\<lambda>BB. f (insts BB)) (blocks F))"
  by (simp add: instructions_def updateInsts_def comp_def)

lemma keepsAllocas_updateInsts:
  assumes ids: "\<And>is. map inst_id (filter isAllocaInst (f is)) =
                       map inst_id (filter isAllocaInst is)"
      and mem: "\<And>is I. I \<in> set is \<Longrightarrow> isAllocaInst I \<Longrightarrow> operands I = [] \<Longrightarrow> I \<in> set (f is)"
  shows "keepsAllocas F (updateInsts f F)"
proof -
  have eq: "map inst_id (filter isAllocaInst (concat (map (\<lambda>BB. f (insts BB)) bs))) =
            map inst_id (filter isAllocaInst (concat (map insts bs)))" for bs
    by (induction bs) (simp_all add: ids)
  have "allocaIds (updateInsts f F) =
        map inst_id (filter isAllocaInst (concat (map (\<lambda>BB. f (insts BB)) (blocks F))))"
    using instructions_updateInsts [of f F] by (simp add: allocaIds_def)
  also have "\<dots> = map inst_id (filter isAllocaInst (concat (map insts (blocks F))))"
    by (simp only: eq)
  also have "\<dots> = allocaIds F"
    by (simp add: allocaIds_def instructions_def)
  finally have a: "allocaIds (updateInsts f F) = allocaIds F" .
  have sub: "I \<in> set (concat (map (\<lambda>BB. f (insts BB)) bs))"
    if "I \<in> set (concat (map insts bs))" "isAllocaInst I" "operands I = []" for I bs
    using that
  proof (induction bs)
    case Nil
    then show ?case by simp
  next
    case (Cons b bs)
    show ?case
    proof (cases "I \<in> set (insts b)")
      case True
      from mem [OF True Cons.prems(2,3)] show ?thesis by simp
    next
      case False
      with Cons.prems(1) have "I \<in> set (concat (map insts bs))" by simp
      from Cons.IH [OF this Cons.prems(2,3)] show ?thesis by simp
    qed
  qed
  have b: "I \<in> set (instructions (updateInsts f F))"
    if "I \<in> set (instructions F)" "isAllocaInst I" "operands I = []" for I
  proof -
    from that(1) have "I \<in> set (concat (map insts (blocks F)))"
      by (simp add: instructions_def)
    from sub [OF this that(2,3)] show ?thesis
      by (simp only: instructions_updateInsts)
  qed
  from a b show ?thesis
    unfolding keepsAllocas_def by blast
qed

lemma filter_insertBefore_list:
  "\<not> isAllocaInst new \<Longrightarrow>
   filter isAllocaInst (insertBefore_list pos new is) = filter isAllocaInst is"
  by (induction "is") auto

lemma filter_insertAfter_list:
  "\<not> isAllocaInst new \<Longrightarrow>
   filter isAllocaInst (insertAfter_list pos new is) = filter isAllocaInst is"
  by (induction "is") auto

lemma set_insertBefore_list: "I \<in> set is \<Longrightarrow> I \<in> set (insertBefore_list pos new is)"
  by (induction "is") auto

lemma set_insertAfter_list: "I \<in> set is \<Longrightarrow> I \<in> set (insertAfter_list pos new is)"
  by (induction "is") auto

lemma keepsAllocas_insertBefore:
  "\<not> isAllocaInst new \<Longrightarrow> keepsAllocas F (insertBefore F pos new)"
  unfolding insertBefore_def
  by (rule keepsAllocas_updateInsts) (simp_all add: filter_insertBefore_list set_insertBefore_list)

lemma keepsAllocas_insertAfter:
  "\<not> isAllocaInst new \<Longrightarrow> keepsAllocas F (insertAfter F pos new)"
  unfolding insertAfter_def
  by (rule keepsAllocas_updateInsts) (simp_all add: filter_insertAfter_list set_insertAfter_list)

lemma keepsAllocas_map:
  assumes alloca: "\<And>I. isAllocaInst (g I) = isAllocaInst I"
      and ident: "\<And>I. inst_id (g I) = inst_id I"
      and same: "\<And>I. isAllocaInst I \<Longrightarrow> operands I = [] \<Longrightarrow> g I = I"
  shows "keepsAllocas F (updateInsts (map g) F)"
proof (rule keepsAllocas_updateInsts)
  fix "is"
  show "map inst_id (filter isAllocaInst (map g is)) = map inst_id (filter isAllocaInst is)"
    by (induction "is") (simp_all add: alloca ident)
next
  fix "is" I
  assume I: "I \<in> set is" "isAllocaInst I" "operands I = []"
  from I(1) have "g I \<in> g ` set is" by (rule imageI)
  moreover from I(2,3) have "g I = I" by (rule same)
  ultimately show "I \<in> set (map g is)" by simp
qed

lemma isAllocaInst_replaceInOpcode:
  "(replaceInOpcode a b opc = Alloca) = (opc = Alloca)"
  by (auto simp: replaceInOpcode_def split: Opcode.splits Callee.splits)

lemma keepsAllocas_replaceUsesOfWith:
  "keepsAllocas F (replaceUsesOfWith F use a b)"
  unfolding replaceUsesOfWith_def
proof (rule keepsAllocas_map)
  fix I
  let ?g = "\<lambda>I. if inst_id I = use
                 then I\<lparr>opcode := replaceInOpcode a b (opcode I),
                        operands := map (\<lambda>v. if v = a then b else v) (operands I)\<rparr>
                 else I"
  show "isAllocaInst (?g I) = isAllocaInst I"
    by (simp add: isAllocaInst_def isAllocaInst_replaceInOpcode)
  show "inst_id (?g I) = inst_id I"
    by simp
  show "?g I = I" if "isAllocaInst I" "operands I = []"
    using that by (simp add: isAllocaInst_def replaceInOpcode_def)
qed

lemma keepsAllocas_setIncomingValue:
  "keepsAllocas F (setIncomingValue F phi i V)"
  unfolding setIncomingValue_def
  by (rule keepsAllocas_map) (simp_all add: isAllocaInst_def)

lemma newInst_not_alloca:
  "opc \<noteq> Alloca \<Longrightarrow> \<not> isAllocaInst (newInst F T opc ops)"
  by (simp add: newInst_def isAllocaInst_def)

lemma storeRelocations_keeps:
  "storeRelocations F allocaMap info relocations = Inr F' \<Longrightarrow> keepsAllocas F F'"
proof (induction relocations arbitrary: F)
  case Nil
  then show ?case by (simp add: keepsAllocas_refl)
next
  case (Cons r relocations)
  obtain d rv where r: "r = (d, rv)" by (cases r)
  have store: "keepsAllocas F (insertAfter F pos (newInst F VoidTy Store ops))" for pos ops
    by (rule keepsAllocas_insertAfter) (simp add: newInst_not_alloca)
  have "\<exists>G. storeRelocations G allocaMap info relocations = Inr F' \<and> keepsAllocas F G"
  proof (cases "map_of allocaMap d")
    case None
    with Cons.prems r show ?thesis by simp
  next
    case (Some alloca)
    show ?thesis
    proof (cases rv)
      case (Some relocate)
      with Cons.prems r \<open>map_of allocaMap d = Some alloca\<close> store show ?thesis
        by auto
    next
      case None
      show ?thesis
      proof (cases "Some d = result info")
        case True
        with Cons.prems r None \<open>map_of allocaMap d = Some alloca\<close> keepsAllocas_refl
        show ?thesis by auto
      next
        case False
        with Cons.prems r None \<open>map_of allocaMap d = Some alloca\<close> store
        show ?thesis by (auto split: if_splits)
      qed
    qed
  qed
  then obtain G where
    G: "storeRelocations G allocaMap info relocations = Inr F'" and
    FG: "keepsAllocas F G"
    by blast
  from FG Cons.IH [OF G] show ?case by (rule keepsAllocas_trans)
qed

lemma updateAfterStatepoints_keeps:
  "updateAfterStatepoints F allocaMap records = Inr F' \<Longrightarrow> keepsAllocas F F'"
proof (induction records arbitrary: F)
  case Nil
  then show ?case by (simp add: keepsAllocas_refl)
next
  case (Cons info records)
  from Cons.prems obtain relocations F1 where
    a: "storeRelocations F allocaMap info relocations = Inr F1" and
    b: "updateAfterStatepoints F1 allocaMap records = Inr F'"
    by (auto simp: bindE_def split: sum.splits)
  from storeRelocations_keeps [OF a] Cons.IH [OF b] show ?case
    by (rule keepsAllocas_trans)
qed

lemma loadForIncoming_keeps:
  "loadForIncoming F d alloca phi incs = Inr F' \<Longrightarrow> keepsAllocas F F'"
proof (induction incs arbitrary: F)
  case Nil
  then show ?case by (simp add: keepsAllocas_refl)
next
  case (Cons inc incs)
  obtain i v b where inc: "inc = (i, v, b)" by (cases inc)
  show ?case
  proof (cases "d = v")
    case False
    with Cons.prems inc have "loadForIncoming F d alloca phi incs = Inr F'" by simp
    then show ?thesis by (rule Cons.IH)
  next
    case True
    show ?thesis
    proof (cases "terminatorOf F b")
      case None
      with Cons.prems inc True show ?thesis by simp
    next
      case (Some t)
      let ?load = "newInst F (getType d) Load [valueOf alloca]"
      let ?G = "insertBefore F (inst_id t) ?load"
      let ?H = "setIncomingValue ?G phi i (valueOf ?load)"
      from Some Cons.prems inc True have run: "loadForIncoming ?H d alloca phi incs = Inr F'"
        by (simp add: Let_def)
      have "keepsAllocas F ?G"
        by (rule keepsAllocas_insertBefore) (simp add: newInst_not_alloca)
      moreover have "keepsAllocas ?G ?H"
        by (rule keepsAllocas_setIncomingValue)
      ultimately have "keepsAllocas F ?H" by (rule keepsAllocas_trans)
      from this Cons.IH [OF run] show ?thesis by (rule keepsAllocas_trans)
    qed
  qed
qed

lemma loadForUses_keeps:
  "loadForUses F d alloca uses = Inr F' \<Longrightarrow> keepsAllocas F F'"
proof (induction uses arbitrary: F)
  case Nil
  then show ?case by (simp add: keepsAllocas_refl)
next
  case (Cons use uses)
  show ?case
  proof (cases "\<exists>bs. opcode use = PHI bs")
    case True
    then obtain bs where bs: "opcode use = PHI bs" by blast
    with Cons.prems obtain F1 where
      a: "loadForIncoming F d alloca (inst_id use)
            (zip [0..<length (operands use)] (zip (operands use) bs)) = Inr F1" and
      b: "loadForUses F1 d alloca uses = Inr F'"
      by (auto simp: bindE_def split: sum.splits)
    from loadForIncoming_keeps [OF a] Cons.IH [OF b] show ?thesis
      by (rule keepsAllocas_trans)
  next
    case False
    let ?load = "newInst F (getType d) Load [valueOf alloca]"
    let ?G = "insertBefore F (inst_id use) ?load"
    let ?H = "replaceUsesOfWith ?G (inst_id use) d (valueOf ?load)"
    from False Cons.prems have run: "loadForUses ?H d alloca uses = Inr F'"
      by (cases "opcode use") (auto simp: Let_def)
    have "keepsAllocas F ?G"
      by (rule keepsAllocas_insertBefore) (simp add: newInst_not_alloca)
    moreover have "keepsAllocas ?G ?H"
      by (rule keepsAllocas_replaceUsesOfWith)
    ultimately have "keepsAllocas F ?H" by (rule keepsAllocas_trans)
    from this Cons.IH [OF run] show ?thesis by (rule keepsAllocas_trans)
  qed
qed

lemma storeInitial_keeps:
  "storeInitial F d alloca = Inr F' \<Longrightarrow> keepsAllocas F F'"
  by (auto simp: storeInitial_def Let_def keepsAllocas_insertAfter newInst_not_alloca
        split: Value.splits if_splits)

lemma updateUses_keeps:
  "updateUses F allocaMap = Inr F' \<Longrightarrow> keepsAllocas F F'"
proof (induction allocaMap arbitrary: F)
  case Nil
  then show ?case by (simp add: keepsAllocas_refl)
next
  case (Cons p allocaMap)
  obtain d alloca where p: "p = (d, alloca)" by (cases p)
  from Cons.prems p obtain F1 F2 where
    a: "loadForUses F d alloca (users F d) = Inr F1" and
    b: "storeInitial F1 d alloca = Inr F2" and
    c: "updateUses F2 allocaMap = Inr F'"
    by (auto simp: bindE_def split: sum.splits)
  from loadForUses_keeps [OF a] storeInitial_keeps [OF b]
  have "keepsAllocas F F2" by (rule keepsAllocas_trans)
  from this Cons.IH [OF c] show ?case by (rule keepsAllocas_trans)
qed

text \<open>
  The allocas that the phase emits are new instructions of the function, one for every
  live value, and without them the function is the one that the phase was given.
\<close>

lemma fold_max_ge: "(a::nat) \<le> fold max xs a"
proof (induction xs arbitrary: a)
  case Nil
  show ?case by simp
next
  case (Cons x xs)
  have "a \<le> max x a" by simp
  also have "\<dots> \<le> fold max xs (max x a)" by (rule Cons.IH)
  finally show ?case by simp
qed

lemma fold_max_mem: "(x::nat) \<in> set xs \<Longrightarrow> x \<le> fold max xs a"
proof (induction xs arbitrary: a)
  case Nil
  then show ?case by simp
next
  case (Cons y xs)
  show ?case
  proof (cases "x = y")
    case True
    have "x \<le> max y a" using True by simp
    also have "\<dots> \<le> fold max xs (max y a)" by (rule fold_max_ge)
    finally show ?thesis by simp
  next
    case False
    with Cons.prems have "x \<in> set xs" by simp
    from Cons.IH [OF this] show ?thesis by simp
  qed
qed

lemma freshId_fresh: "freshId F \<notin> inst_id ` set (instructions F)"
proof
  assume "freshId F \<in> inst_id ` set (instructions F)"
  then have "freshId F \<in> set (map inst_id (instructions F))" by simp
  from fold_max_mem [OF this, of 0] show False
    by (simp add: freshId_def)
qed

lemma filter_fresh:
  "a \<notin> inst_id ` set is \<Longrightarrow> filter (\<lambda>I. inst_id I \<noteq> a) is = is"
  by (induction "is") auto

lemma filter_fresh_insertBefore_list:
  "inst_id new \<notin> inst_id ` set is \<Longrightarrow>
   filter (\<lambda>I. inst_id I \<noteq> inst_id new) (insertBefore_list pos new is) = is"
  by (induction "is") (auto simp: filter_fresh)

lemma mem_insertBefore_list:
  "pos \<in> inst_id ` set is \<Longrightarrow> new \<in> set (insertBefore_list pos new is)"
  by (induction "is") auto

lemma instructions_insertBefore:
  "instructions (insertBefore F pos new) =
     concat (map (\<lambda>BB. insertBefore_list pos new (insts BB)) (blocks F))"
  unfolding insertBefore_def by (rule instructions_updateInsts)

lemma instructions_insertBefore_fresh:
  assumes "inst_id new \<notin> inst_id ` set (instructions F)"
  shows "filter (\<lambda>I. inst_id I \<noteq> inst_id new) (instructions (insertBefore F pos new)) =
         instructions F"
proof -
  have "filter (\<lambda>I. inst_id I \<noteq> inst_id new)
          (concat (map (\<lambda>BB. insertBefore_list pos new (insts BB)) bs)) =
        concat (map insts bs)"
    if "inst_id new \<notin> inst_id ` set (concat (map insts bs))" for bs
    using that
  proof (induction bs)
    case Nil
    show ?case by simp
  next
    case (Cons b bs)
    from Cons.prems have h: "inst_id new \<notin> inst_id ` set (insts b)"
      and t: "inst_id new \<notin> inst_id ` set (concat (map insts bs))"
      by (simp_all add: image_Un)
    from filter_fresh_insertBefore_list [OF h, of pos] Cons.IH [OF t] show ?case
      by simp
  qed
  from this [of "blocks F"] assms show ?thesis
    by (simp only: instructions_insertBefore) (simp add: instructions_def)
qed

lemma instructions_insertBefore_mem:
  assumes "pos \<in> inst_id ` set (instructions F)"
  shows "new \<in> set (instructions (insertBefore F pos new))"
proof -
  have "new \<in> set (concat (map (\<lambda>BB. insertBefore_list pos new (insts BB)) bs))"
    if "pos \<in> inst_id ` set (concat (map insts bs))" for bs
    using that
  proof (induction bs)
    case Nil
    then show ?case by simp
  next
    case (Cons b bs)
    show ?case
    proof (cases "pos \<in> inst_id ` set (insts b)")
      case True
      from mem_insertBefore_list [OF True, of new] show ?thesis by simp
    next
      case False
      with Cons.prems have "pos \<in> inst_id ` set (concat (map insts bs))"
        by (simp add: image_Un)
      from Cons.IH [OF this] show ?thesis by simp
    qed
  qed
  from this [of "blocks F"] assms show ?thesis
    by (simp only: instructions_insertBefore) (simp add: instructions_def)
qed

lemma instructions_insertBefore_subset:
  assumes "I \<in> set (instructions F)"
  shows "I \<in> set (instructions (insertBefore F pos new))"
proof -
  have "I \<in> set (concat (map (\<lambda>BB. insertBefore_list pos new (insts BB)) bs))"
    if "I \<in> set (concat (map insts bs))" for bs
    using that
  proof (induction bs)
    case Nil
    then show ?case by simp
  next
    case (Cons b bs)
    show ?case
    proof (cases "I \<in> set (insts b)")
      case True
      from set_insertBefore_list [OF True, of pos new] show ?thesis by simp
    next
      case False
      with Cons.prems have "I \<in> set (concat (map insts bs))" by simp
      from Cons.IH [OF this] show ?thesis by simp
    qed
  qed
  from this [of "blocks F"] assms show ?thesis
    by (simp only: instructions_insertBefore) (simp add: instructions_def)
qed

lemma filter_ids_insert:
  "filter (\<lambda>I. inst_id I \<notin> insert a S) xs =
   filter (\<lambda>I. inst_id I \<noteq> a) (filter (\<lambda>I. inst_id I \<notin> S) xs)"
  by (induction xs) auto

lemma allocaIds_filter:
  "map inst_id (filter isAllocaInst (filter (\<lambda>I. inst_id I \<notin> S) xs)) =
   filter (\<lambda>i. i \<notin> S) (map inst_id (filter isAllocaInst xs))"
  by (induction xs) auto

lemma emitAllocas_slots:
  "emitAllocas F live allocaMap PromotableAllocas = Inr (F1, allocaMap1, PromotableAllocas1) \<Longrightarrow>
   \<exists>slots.
     PromotableAllocas1 = PromotableAllocas @ slots \<and>
     length slots = length live \<and>
     list_all isAllocaInst slots \<and>
     list_all (\<lambda>s. operands s = []) slots \<and>
     set slots \<subseteq> set (instructions F1) \<and>
     distinct (map inst_id slots) \<and>
     inst_id ` set slots \<inter> inst_id ` set (instructions F) = {} \<and>
     filter (\<lambda>I. inst_id I \<notin> inst_id ` set slots) (instructions F1) = instructions F"
proof (induction live arbitrary: F allocaMap PromotableAllocas)
  case Nil
  then show ?case by simp
next
  case (Cons liveValue live)
  from Cons.prems obtain entry others first where
    blocks: "blocks F = entry # others" and first: "getFirstNonPHI entry = Some first"
    by (auto split: list.splits option.splits)
  define alloca where "alloca = newInst F (PointerTy 0) Alloca []"
  define G where "G = insertBefore F (inst_id first) alloca"
  have run: "emitAllocas G live (setEntry liveValue alloca allocaMap)
               (PromotableAllocas @ [alloca]) = Inr (F1, allocaMap1, PromotableAllocas1)"
    using Cons.prems blocks first by (simp add: Let_def alloca_def G_def)
  from Cons.IH [OF run] obtain slots where
    s1: "PromotableAllocas1 = (PromotableAllocas @ [alloca]) @ slots" and
    s2: "length slots = length live" and
    s3: "list_all isAllocaInst slots" and
    s4: "list_all (\<lambda>s. operands s = []) slots" and
    s5: "set slots \<subseteq> set (instructions F1)" and
    s6: "distinct (map inst_id slots)" and
    s7: "inst_id ` set slots \<inter> inst_id ` set (instructions G) = {}" and
    s8: "filter (\<lambda>I. inst_id I \<notin> inst_id ` set slots) (instructions F1) = instructions G"
    by blast
  have "first \<in> set (insts entry)"
    using first by (auto simp: getFirstNonPHI_def find_Some_iff)
  then have pos: "inst_id first \<in> inst_id ` set (instructions F)"
    using blocks by (auto simp: instructions_def)
  have fresh: "inst_id alloca \<notin> inst_id ` set (instructions F)"
    using freshId_fresh [of F] by (simp add: newInst_def alloca_def)
  have inG: "alloca \<in> set (instructions G)"
    unfolding G_def using pos by (rule instructions_insertBefore_mem)
  have FG: "set (instructions F) \<subseteq> set (instructions G)"
    unfolding G_def using instructions_insertBefore_subset by blast
  have undo: "filter (\<lambda>I. inst_id I \<noteq> inst_id alloca) (instructions G) = instructions F"
    unfolding G_def using fresh by (rule instructions_insertBefore_fresh)
  have notin: "inst_id alloca \<notin> inst_id ` set slots"
    using s7 inG by blast
  have GF1: "set (instructions G) \<subseteq> set (instructions F1)"
  proof -
    have "set (instructions G) =
          set (filter (\<lambda>I. inst_id I \<notin> inst_id ` set slots) (instructions F1))"
      by (simp only: s8)
    then show ?thesis by auto
  qed
  let ?slots = "alloca # slots"
  have c1: "PromotableAllocas1 = PromotableAllocas @ ?slots"
    using s1 by simp
  have c2: "length ?slots = length (liveValue # live)"
    using s2 by simp
  have c3: "list_all isAllocaInst ?slots"
    using s3 by (simp add: alloca_def newInst_def isAllocaInst_def)
  have c4: "list_all (\<lambda>s. operands s = []) ?slots"
    using s4 by (simp add: alloca_def newInst_def)
  have c5: "set ?slots \<subseteq> set (instructions F1)"
    using s5 inG GF1 by auto
  have c6: "distinct (map inst_id ?slots)"
    using s6 notin by simp
  have c7: "inst_id ` set ?slots \<inter> inst_id ` set (instructions F) = {}"
  proof -
    have "inst_id ` set slots \<inter> inst_id ` set (instructions F) = {}"
      using s7 FG by blast
    with fresh show ?thesis by simp
  qed
  have c8: "filter (\<lambda>I. inst_id I \<notin> inst_id ` set ?slots) (instructions F1) = instructions F"
  proof -
    have "filter (\<lambda>I. inst_id I \<notin> inst_id ` set ?slots) (instructions F1) =
          filter (\<lambda>I. inst_id I \<notin> insert (inst_id alloca) (inst_id ` set slots))
            (instructions F1)"
      by simp
    also have "\<dots> = filter (\<lambda>I. inst_id I \<noteq> inst_id alloca)
                       (filter (\<lambda>I. inst_id I \<notin> inst_id ` set slots) (instructions F1))"
      by (rule filter_ids_insert)
    also have "\<dots> = instructions F"
      by (simp only: s8 undo)
    finally show ?thesis .
  qed
  from c1 c2 c3 c4 c5 c6 c7 c8 show ?case by blast
qed

lemma spill_and_promote:
  assumes promote: "eliminatesSlots PromoteMemToReg"
      and emit: "emitAllocas F live [] [] = Inr (F1, allocaMap, slots)"
      and stores: "updateAfterStatepoints F1 allocaMap records = Inr F2"
      and loads: "updateUses F2 allocaMap = Inr F3"
  shows "allocaIds (if slots \<noteq> [] then PromoteMemToReg slots F3 else F3) = allocaIds F"
    and "length slots = length live"
    and "distinct (map inst_id slots)"
    and "list_all isAllocaInst slots"
    and "set slots \<subseteq> set (instructions F3)"
    and "inst_id ` set slots \<inter> inst_id ` set (instructions F) = {}"
proof -
  from emitAllocas_slots [OF emit] have
    len: "length slots = length live" and
    allocas: "list_all isAllocaInst slots" and
    empty: "list_all (\<lambda>s. operands s = []) slots" and
    inF1: "set slots \<subseteq> set (instructions F1)" and
    dist: "distinct (map inst_id slots)" and
    new: "inst_id ` set slots \<inter> inst_id ` set (instructions F) = {}" and
    rest: "filter (\<lambda>I. inst_id I \<notin> inst_id ` set slots) (instructions F1) = instructions F"
    by simp_all
  have keeps: "keepsAllocas F1 F3"
    using updateAfterStatepoints_keeps [OF stores] updateUses_keeps [OF loads]
    by (rule keepsAllocas_trans)
  have inF3: "set slots \<subseteq> set (instructions F3)"
  proof
    fix s
    assume s: "s \<in> set slots"
    with allocas empty have "isAllocaInst s" "operands s = []"
      by (simp_all add: list_all_iff)
    moreover from s inF1 have "s \<in> set (instructions F1)" by blast
    ultimately show "s \<in> set (instructions F3)"
      using keeps unfolding keepsAllocas_def by blast
  qed
  have F1: "filter (\<lambda>i. i \<notin> inst_id ` set slots) (allocaIds F1) = allocaIds F"
  proof -
    have "filter (\<lambda>i. i \<notin> inst_id ` set slots) (allocaIds F1) =
          map inst_id (filter isAllocaInst
            (filter (\<lambda>I. inst_id I \<notin> inst_id ` set slots) (instructions F1)))"
      unfolding allocaIds_def by (rule allocaIds_filter [symmetric])
    also have "\<dots> = allocaIds F"
      by (simp only: rest allocaIds_def)
    finally show ?thesis .
  qed
  have F3: "allocaIds F3 = allocaIds F1"
    using keeps by (simp add: keepsAllocas_def)
  have "allocaIds (if slots \<noteq> [] then PromoteMemToReg slots F3 else F3) =
        filter (\<lambda>i. i \<notin> inst_id ` set slots) (allocaIds F3)"
  proof (cases "slots = []")
    case True
    then show ?thesis by simp
  next
    case False
    from promote inF3 allocas have
      "allocaIds (PromoteMemToReg slots F3) =
       filter (\<lambda>i. i \<notin> inst_id ` set slots) (allocaIds F3)"
      unfolding eliminatesSlots_def by blast
    with False show ?thesis by simp
  qed
  then show "allocaIds (if slots \<noteq> [] then PromoteMemToReg slots F3 else F3) = allocaIds F"
    by (simp only: F3 F1)
  show "length slots = length live" by (rule len)
  show "distinct (map inst_id slots)" by (rule dist)
  show "list_all isAllocaInst slots" by (rule allocas)
  show "set slots \<subseteq> set (instructions F3)" by (rule inF3)
  show "inst_id ` set slots \<inter> inst_id ` set (instructions F) = {}" by (rule new)
qed

lemma relocationViaAlloca_Inr:
  assumes "relocationViaAlloca PromoteMemToReg F live records = Inr F'"
  shows "\<exists>F1 allocaMap slots F2 F3.
           emitAllocas F live [] [] = Inr (F1, allocaMap, slots) \<and>
           updateAfterStatepoints F1 allocaMap records = Inr F2 \<and>
           updateUses F2 allocaMap = Inr F3 \<and>
           F' = (if slots \<noteq> [] then PromoteMemToReg slots F3 else F3)"
  using assms
  by (auto simp: relocationViaAlloca_def bindE_def Let_def
        split: sum.splits prod.splits if_splits)

lemma allocaIds_subset: "set (allocaIds F) \<subseteq> inst_id ` set (instructions F)"
  by (auto simp: allocaIds_def)

text \<open>
  C9.  When \<^verbatim>\<open>relocationViaAlloca\<close> completes, with a promotion that eliminates the
  slots it is given as the spec has it, the function has as many alloca instructions as
  it had before the phase, and they are the same instructions.  The phase has emitted
  one stack slot for every live value, each of them a new alloca instruction that is in
  the function when the promotion runs, and none of them is an alloca of the function
  that the phase leaves: every stack slot that the phase introduces is eliminated.
\<close>

theorem relocationViaAlloca_alloca_count:
  assumes promote: "eliminatesSlots PromoteMemToReg"
      and run: "relocationViaAlloca PromoteMemToReg F live records = Inr F'"
  shows "countAllocas F' = countAllocas F \<and>
         allocaIds F' = allocaIds F \<and>
         (\<exists>F1 allocaMap slots F2 F3.
            emitAllocas F live [] [] = Inr (F1, allocaMap, slots) \<and>
            updateAfterStatepoints F1 allocaMap records = Inr F2 \<and>
            updateUses F2 allocaMap = Inr F3 \<and>
            F' = (if slots \<noteq> [] then PromoteMemToReg slots F3 else F3) \<and>
            length slots = length live \<and>
            distinct (map inst_id slots) \<and>
            list_all isAllocaInst slots \<and>
            set slots \<subseteq> set (instructions F3) \<and>
            inst_id ` set slots \<inter> inst_id ` set (instructions F) = {} \<and>
            inst_id ` set slots \<inter> set (allocaIds F') = {})"
proof -
  from relocationViaAlloca_Inr [OF run] obtain F1 allocaMap slots F2 F3 where
    emit: "emitAllocas F live [] [] = Inr (F1, allocaMap, slots)" and
    stores: "updateAfterStatepoints F1 allocaMap records = Inr F2" and
    loads: "updateUses F2 allocaMap = Inr F3" and
    F': "F' = (if slots \<noteq> [] then PromoteMemToReg slots F3 else F3)"
    by blast
  note facts = spill_and_promote [OF promote emit stores loads]
  have same: "allocaIds F' = allocaIds F"
    using facts(1) by (simp only: F')
  then have count: "countAllocas F' = countAllocas F"
    by (simp add: countAllocas_allocaIds)
  have gone: "inst_id ` set slots \<inter> set (allocaIds F') = {}"
    using facts(6) allocaIds_subset [of F] unfolding same by blast
  from count same emit stores loads F' facts(2-6) gone show ?thesis
    by blast
qed

lemma ex_promoteInsts_allocas:
  "map inst_id (filter isAllocaInst (ex_promoteInsts slots current subst is)) =
   filter (\<lambda>i. i \<notin> inst_id ` set slots) (map inst_id (filter isAllocaInst is))"
  by (induction "is" arbitrary: current subst) (auto simp: Let_def isAllocaInst_def)

lemma ex_promote_eliminatesSlots: "eliminatesSlots ex_promote"
proof -
  have "allocaIds (ex_promote allocas F) =
        filter (\<lambda>i. i \<notin> inst_id ` set allocas) (allocaIds F)" for allocas F
  proof -
    have eq: "map inst_id (filter isAllocaInst
                (concat (map (\<lambda>BB. ex_promoteInsts allocas [] [] (insts BB)) bs))) =
              filter (\<lambda>i. i \<notin> inst_id ` set allocas)
                (map inst_id (filter isAllocaInst (concat (map insts bs))))" for bs
      by (induction bs) (simp_all add: ex_promoteInsts_allocas)
    have "allocaIds (ex_promote allocas F) =
          map inst_id (filter isAllocaInst
            (concat (map (\<lambda>BB. ex_promoteInsts allocas [] [] (insts BB)) (blocks F))))"
      using instructions_updateInsts [of "ex_promoteInsts allocas [] []" F]
      by (simp add: allocaIds_def ex_promote_def)
    also have "\<dots> = filter (\<lambda>i. i \<notin> inst_id ` set allocas)
                       (map inst_id (filter isAllocaInst (concat (map insts (blocks F)))))"
      by (simp only: eq)
    also have "\<dots> = filter (\<lambda>i. i \<notin> inst_id ` set allocas) (allocaIds F)"
      by (simp add: allocaIds_def instructions_def)
    finally show ?thesis .
  qed
  then show ?thesis
    unfolding eliminatesSlots_def by blast
qed

lemmas ex_reloc_defs = ex_relocFunction_def ex_statepoint_def ex_relocate_def ex_record_def
  ex_obj_def ex_inst_def ex_decl_def ex_relocated_def ex_promote_def ex_slot_def
  bindE_def newInst_def freshId_def instructions_def insertBefore_def insertAfter_def
  updateInsts_def getFirstNonPHI_def isPHINode_def valueOf_def users_def getOperands_def
  asIntrinsicInst_def derivedPtr_def replaceUsesOfWith_def replaceInOpcode_def
  storeInitial_def countAllocas_def isAllocaInst_def Let_def terminatorOf_def getBlock_def
  getTerminator_def isTerminator_def setIncomingValue_def

lemma ex_relocation:
  "relocationViaAlloca ex_promote ex_relocFunction [ex_obj] [ex_record] = Inr ex_relocated"
  by (simp add: relocationViaAlloca_def ex_reloc_defs)

theorem relocationViaAlloca_alloca_count_witness:
  "eliminatesSlots ex_promote \<and>
   relocationViaAlloca ex_promote ex_relocFunction [ex_obj] [ex_record] = Inr ex_relocated \<and>
   countAllocas ex_relocated = countAllocas ex_relocFunction \<and>
   allocaIds ex_relocated = allocaIds ex_relocFunction \<and>
   allocaIds ex_relocFunction = [39]"
proof -
  from relocationViaAlloca_alloca_count [OF ex_promote_eliminatesSlots ex_relocation]
  have "countAllocas ex_relocated = countAllocas ex_relocFunction"
       "allocaIds ex_relocated = allocaIds ex_relocFunction"
    by blast+
  moreover have "allocaIds ex_relocFunction = [39]"
    by (simp add: allocaIds_def ex_reloc_defs)
  ultimately show ?thesis
    using ex_promote_eliminatesSlots ex_relocation by blast
qed

text \<open>
  With such a promotion the final assertion of the phase cannot fail: when the three
  loops of the phase complete, so does the phase.
\<close>

lemma relocationViaAlloca_completes:
  assumes promote: "eliminatesSlots PromoteMemToReg"
      and emit: "emitAllocas F live [] [] = Inr (F1, allocaMap, slots)"
      and stores: "updateAfterStatepoints F1 allocaMap records = Inr F2"
      and loads: "updateUses F2 allocaMap = Inr F3"
  shows "relocationViaAlloca PromoteMemToReg F live records =
           Inr (if slots \<noteq> [] then PromoteMemToReg slots F3 else F3)"
proof -
  note facts = spill_and_promote [OF promote emit stores loads]
  have "countAllocas (if slots \<noteq> [] then PromoteMemToReg slots F3 else F3) = countAllocas F"
    using facts(1) by (simp only: countAllocas_allocaIds)
  with facts(2) emit stores loads show ?thesis
    by (simp add: relocationViaAlloca_def bindE_def Let_def)
qed

subsection \<open>The pass on a function without the opt-in attributes\<close>

lemma shouldRun_absent:
  "\<not> AllFunctions opts \<Longrightarrow> getFnAttribute (fn_attrs F) attr \<noteq> ''true'' \<Longrightarrow>
   shouldRun opts F attr = Inr False"
  by (simp add: shouldRun_def)

lemma collectPollLocations_absent:
  "shouldRun opts F ''gc-add-backedge-safepoints'' = Inr False \<Longrightarrow>
   collectPollLocations opts SE F loops PollLocations = Inr PollLocations"
  by (induction loops) (simp_all add: runOnLoop_def bindE_def)

lemma relocationViaAlloca_nothing:
  "relocationViaAlloca P F [] [] = Inr F"
  by (simp add: relocationViaAlloca_def bindE_def)

lemma runPhases_no_sites: "runPhases steps st [] = Inr (st, [])"
  by (induction steps) (simp_all add: bindE_def)

lemma insertParsePoints_nothing:
  "insertParsePoints col opts F [] = Inr (False, F)"
  by (simp add: insertParsePoints_def bindE_def runPhases_no_sites unique_unsorted_def
        relocationViaAlloca_nothing)

lemma removeUnreachableBlocks_frame:
  "fn_attrs (removeUnreachableBlocks F) = fn_attrs F \<and>
   fn_name (removeUnreachableBlocks F) = fn_name F"
  by (simp add: removeUnreachableBlocks_def)

text \<open>
  C3, as the code has it.  When \<^verbatim>\<open>AllFunctions\<close> is false and the function carries
  none of the three opt-in attributes (and loop simplification leaves the attributes
  alone), the pass selects no poll location and no parse point, and what it leaves is
  the function without its unreachable blocks, after the passes outside the sources that
  run in any case (loop simplification, merging of VM states): the blocks unreachable
  from the entry block are removed before any attribute is read.  A function without
  such blocks, on which those passes change nothing, is left unchanged.
\<close>

theorem runOnFunction_without_attributes:
  assumes noAll: "\<not> AllFunctions opts"
      and entry: "getFnAttribute (fn_attrs F) ''gc-add-entry-safepoints'' \<noteq> ''true''"
      and backedge: "getFnAttribute (fn_attrs F) ''gc-add-backedge-safepoints'' \<noteq> ''true''"
      and call: "getFnAttribute (fn_attrs F) ''gc-add-call-safepoints'' \<noteq> ''true''"
      and frame: "fn_attrs (LoopSimplify col (removeUnreachableBlocks F)) = fn_attrs F"
  shows "runOnFunction col opts F =
           (if blocks F = [] then Some (Inr (False, F))
            else Some (Inr (length (blocks (removeUnreachableBlocks F)) \<noteq> length (blocks F),
                            externalPasses col opts (removeUnreachableBlocks F))))"
proof (cases "blocks F = []")
  case True
  then show ?thesis by (simp add: runOnFunction_def)
next
  case False
  let ?F0 = "removeUnreachableBlocks F"
  let ?F1 = "if NoBackedge opts then ?F0 else LoopSimplify col ?F0"
  have attrs: "fn_attrs ?F1 = fn_attrs F"
    using frame removeUnreachableBlocks_frame [of F] by simp
  have bk: "backedgeStep col opts ?F0 = Inr (False, ?F1, [])"
  proof -
    have "shouldRun opts (LoopSimplify col ?F0) ''gc-add-backedge-safepoints'' = Inr False"
      using shouldRun_absent [OF noAll] backedge frame by simp
    then show ?thesis
      by (simp add: backedgeStep_def Let_def bindE_def collectPollLocations_absent)
  qed
  have ent: "entryStep col opts ?F1 = Some (Inr (False, ?F1, []))"
    using shouldRun_absent [OF noAll, of ?F1 "''gc-add-entry-safepoints''"] entry attrs
    by (simp add: entryStep_def findLocationForEntrySafepoint_def)
  have cal: "callStep opts ?F1 = Inr []"
    using shouldRun_absent [OF noAll, of ?F1 "''gc-add-call-safepoints''"] call attrs
    by (simp add: callStep_def findCallSafepoints_def)
  have uu: "unique_unsorted ([] :: CallSite list) = []"
    by (simp add: unique_unsorted_def)
  show ?thesis
    using False
    by (simp add: runOnFunction_def Let_def bk ent cal uu insertParsePoints_nothing bindE_def
          externalPasses_def)
qed

lemmas ex_pass_defs = ex_deadBlockFunction_def ex_liveBlocksFunction_def ex_br_def ex_inst_def
  removeUnreachableBlocks_def reachableBlocks_def succ_of_def getBlock_def succ_blocks_def
  getTerminator_def isTerminator_def

lemma ex_removeUnreachable:
  "removeUnreachableBlocks ex_deadBlockFunction = ex_liveBlocksFunction"
  by (simp add: ex_pass_defs)

lemma ex_removeUnreachable_live:
  "removeUnreachableBlocks ex_liveBlocksFunction = ex_liveBlocksFunction"
  by (simp add: ex_pass_defs)

lemma ex_options_noAll: "\<not> AllFunctions ex_options"
  by (simp add: ex_options_def)

theorem runOnFunction_without_attributes_witness:
  "\<not> AllFunctions ex_options \<and>
   runOnFunction ex_collaborators ex_options ex_liveBlocksFunction =
     Some (Inr (False, ex_liveBlocksFunction))"
proof -
  have a: "getFnAttribute (fn_attrs ex_liveBlocksFunction) k \<noteq> ''true''" for k
    by (simp add: ex_liveBlocksFunction_def getFnAttribute_def)
  have f: "fn_attrs (LoopSimplify ex_collaborators (removeUnreachableBlocks ex_liveBlocksFunction)) =
             fn_attrs ex_liveBlocksFunction"
    by (simp add: ex_removeUnreachable_live ex_collaborators_def)
  have e: "externalPasses ex_collaborators ex_options ex_liveBlocksFunction = ex_liveBlocksFunction"
    by (simp add: externalPasses_def ex_collaborators_def)
  have b: "blocks ex_liveBlocksFunction \<noteq> []"
    by (simp add: ex_liveBlocksFunction_def)
  show ?thesis
    using runOnFunction_without_attributes [OF ex_options_noAll a a a f] ex_options_noAll
    by (simp add: ex_removeUnreachable_live e b)
qed

text \<open>
  The claim as stated fails: a function with no attribute and a block that no path from
  the entry block reaches loses that block, and the pass reports a modification.
\<close>

theorem runOnFunction_unreachable_counterexample:
  "\<not> AllFunctions ex_options \<and> fn_attrs ex_deadBlockFunction = [] \<and>
   runOnFunction ex_collaborators ex_options ex_deadBlockFunction =
     Some (Inr (True, ex_liveBlocksFunction)) \<and>
   ex_liveBlocksFunction \<noteq> ex_deadBlockFunction"
proof -
  have run: "shouldRun ex_options G attr = Inr False" if "fn_attrs G = []" for G attr
    using that by (simp add: shouldRun_def ex_options_def getFnAttribute_def)
  have attrs: "fn_attrs ex_liveBlocksFunction = []"
    by (simp add: ex_liveBlocksFunction_def)
  have bk: "backedgeStep ex_collaborators ex_options ex_liveBlocksFunction =
                Inr (False, ex_liveBlocksFunction, [])"
    by (simp add: backedgeStep_def ex_collaborators_def ex_options_def bindE_def)
  have ent: "entryStep ex_collaborators ex_options ex_liveBlocksFunction =
               Some (Inr (False, ex_liveBlocksFunction, []))"
    using run [OF attrs] by (simp add: entryStep_def findLocationForEntrySafepoint_def ex_options_def)
  have cal: "callStep ex_options ex_liveBlocksFunction = Inr []"
    using run [OF attrs] by (simp add: callStep_def findCallSafepoints_def ex_options_def)
  have uu: "unique_unsorted ([] :: CallSite list) = []"
    by (simp add: unique_unsorted_def)
  have len: "length (blocks ex_liveBlocksFunction) \<noteq> length (blocks ex_deadBlockFunction)"
    "blocks ex_deadBlockFunction \<noteq> []"
    by (simp_all add: ex_liveBlocksFunction_def ex_deadBlockFunction_def)
  have merge: "MergeNonDominatingVMStates ex_collaborators [] ex_liveBlocksFunction =
                 ex_liveBlocksFunction"
    by (simp add: ex_collaborators_def)
  have "runOnFunction ex_collaborators ex_options ex_deadBlockFunction =
          Some (Inr (True, ex_liveBlocksFunction))"
    using len
    by (simp add: runOnFunction_def Let_def ex_removeUnreachable bk ent cal uu merge
          insertParsePoints_nothing bindE_def)
  moreover have "ex_liveBlocksFunction \<noteq> ex_deadBlockFunction"
    by (simp add: ex_liveBlocksFunction_def ex_deadBlockFunction_def)
  ultimately show ?thesis
    by (simp add: ex_options_def ex_deadBlockFunction_def)
qed

end
